theory Spec2Isabelle
  imports Complex_Main
begin

section \<open>Data model of \<open>usempl_streaks.py\<close>\<close>

text \<open>
  The module loads the monthly PAYEMS series into the frame \<open>usempl_df\<close>, adds the column
  \<open>empl_mth_gain\<close> (the first difference of \<open>PAYEMS\<close>) and cuts the series into streaks of
  consecutive months with a positive gain; each streak is a frame \<open>strk_df\<close> of its own.

  Numbers: the employment levels and gains are numbers of type \<open>rat\<close>, and the comparisons
  and sums below are the exact ones. A missing value (pandas' NaN) is \<open>None\<close>: every
  comparison with it is false, as in Python. Month counters are natural numbers.
\<close>

datatype py_error = KeyError | ValueError | IndexError | ZeroDivisionError | EmptyFrame

record date =
  year :: nat
  month :: nat
  day :: nat

text \<open>A row of \<open>usempl_df\<close>: the columns \<open>Date\<close>, \<open>PAYEMS\<close> and \<open>empl_mth_gain\<close>.\<close>

record obs =
  Date :: date
  PAYEMS :: rat
  empl_mth_gain :: "rat option"

text \<open>
  A row of a streak frame \<open>strk_df\<close>: the three columns copied from \<open>usempl_df\<close> (kept
  together as \<open>member\<close>), the running columns \<open>strk_mths\<close> and \<open>strk_cum\<close> (here
  \<open>col_strk_mths\<close> and \<open>col_strk_cum\<close>, since the local variables of the loop bear the same
  names), and the three columns that are NaN until the streak is closed.
\<close>

record strk_row =
  member :: obs
  col_strk_mths :: nat
  col_strk_cum :: rat
  strk_mths_tot :: "nat option"
  strk_avg_emp_gain :: "rat option"
  strk_cum_tot :: "rat option"

text \<open>
  The local variables of \<open>usempl_streaks\<close> that the segmentation loop reads and writes.
  \<open>j\<close>, \<open>strk_df\<close> and \<open>strk_start_mth_str\<close> are unbound in Python until the first streak
  opens; here they hold whatever the starting state gives them.
\<close>

record locals =
  strk_df_lst :: "strk_row list list"
  strk_cds_lst :: "strk_row list list"
  strk_label_lst :: "string list"
  min_gain_val_lst :: "rat list"
  max_gain_val_lst :: "rat list"
  min_cum_val_lst :: "rat list"
  max_cum_val_lst :: "rat list"
  min_mth_val_lst :: "nat list"
  max_mth_val_lst :: "nat list"
  strk_num :: nat
  strk_mths :: nat
  strk_cum :: rat
  j :: nat
  strk_df :: "strk_row list"
  strk_start_mth_str :: string

section \<open>The loader's gain column\<close>

text \<open>
  \<open>get_usempl_data\<close> ends with \<open>usempl_df["empl_mth_gain"] = usempl_df["PAYEMS"].diff()\<close>
  on a frame without missing values: the first gain is NaN, every later one is the
  difference to the month before.
\<close>

fun diff_from :: "rat \<Rightarrow> (date \<times> rat) list \<Rightarrow> obs list" where
  "diff_from p [] = []"
| "diff_from p ((d, v) # xs) =
     \<lparr>Date = d, PAYEMS = v, empl_mth_gain = Some (v - p)\<rparr> # diff_from v xs"

fun with_gain :: "(date \<times> rat) list \<Rightarrow> obs list" where
  "with_gain [] = []"
| "with_gain ((d, v) # xs) =
     \<lparr>Date = d, PAYEMS = v, empl_mth_gain = None\<rparr> # diff_from v xs"

section \<open>Formatting a month\<close>

definition digit_char :: "nat \<Rightarrow> char" where
  "digit_char n = ''0123456789'' ! (n mod 10)"

text \<open>\<open>strftime("%Y-%m")\<close> of a pandas timestamp: four digits of the year, two of the month.\<close>

definition strftime_Ym :: "date \<Rightarrow> string" where
  "strftime_Ym d =
     [digit_char (year d div 1000), digit_char (year d div 100),
      digit_char (year d div 10), digit_char (year d)] @ ''-'' @
     [digit_char (month d div 10), digit_char (month d)]"

section \<open>The segmentation loop\<close>

text \<open>Lines 232 to 243: the lists are emptied and the counters set to zero.\<close>

definition init_locals :: "locals \<Rightarrow> locals" where
  "init_locals s = s\<lparr>strk_df_lst := [], strk_cds_lst := [], strk_label_lst := [],
     min_gain_val_lst := [], max_gain_val_lst := [],
     min_cum_val_lst := [], max_cum_val_lst := [],
     min_mth_val_lst := [], max_mth_val_lst := [],
     strk_num := 0, strk_mths := 0, strk_cum := 0\<rparr>"

text \<open>Lines 246 to 261: with no streak open, a new one opens at index \<open>i\<close>.\<close>

definition open_streak :: "nat \<Rightarrow> date \<Rightarrow> locals \<Rightarrow> locals" where
  "open_streak i d s =
     (if strk_mths s = 0
      then s\<lparr>j := i, strk_num := strk_num s + 1, strk_df := [],
             strk_start_mth_str := strftime_Ym d\<rparr>
      else s)"

text \<open>
  Lines 262 to 268: the observation becomes the row \<open>i - j\<close> of the frame, a label that is
  new each time, so the row is appended; the counter and the running sum are advanced and
  written into the row.
\<close>

definition add_member :: "obs \<Rightarrow> rat \<Rightarrow> locals \<Rightarrow> locals" where
  "add_member r g s =
     (let m = strk_mths s + 1; c = strk_cum s + g
      in s\<lparr>strk_df := strk_df s @
               [\<lparr>member = r, col_strk_mths = m, col_strk_cum = c, strk_mths_tot = None,
                 strk_avg_emp_gain = None, strk_cum_tot = None\<rparr>],
           strk_mths := m, strk_cum := c\<rparr>)"

text \<open>The minimum and the maximum of a column; \<open>None\<close> for a column without a value.\<close>

definition col_min :: "('a::linorder) list \<Rightarrow> 'a option" where
  "col_min xs = (case xs of [] \<Rightarrow> None | x # ys \<Rightarrow> Some (fold min ys x))"

definition col_max :: "('a::linorder) list \<Rightarrow> 'a option" where
  "col_max xs = (case xs of [] \<Rightarrow> None | x # ys \<Rightarrow> Some (fold max ys x))"

text \<open>The gain column of a streak frame, without its missing values.\<close>

definition gain_col :: "strk_row list \<Rightarrow> rat list" where
  "gain_col df = List.map_filter (\<lambda>r. empl_mth_gain (member r)) df"

text \<open>
  The assignments \<open>strk_df["strk_mths_tot"] = strk_mths\<close>,
  \<open>strk_df["strk_avg_emp_gain"] = strk_cum / strk_mths\<close> and
  \<open>strk_df["strk_cum_tot"] = strk_cum\<close> write one value into every row of the frame.
\<close>

definition set_totals :: "nat \<Rightarrow> rat \<Rightarrow> strk_row list \<Rightarrow> strk_row list" where
  "set_totals m c df =
     map (\<lambda>r. r\<lparr>strk_mths_tot := Some m, strk_avg_emp_gain := Some (c / of_nat m),
                strk_cum_tot := Some c\<rparr>) df"

text \<open>
  The six appends of the per-streak extrema (lines 278 to 283 and 299 to 304). A frame
  without rows has no extrema (pandas gives NaN); no frame is empty when it is closed, and
  the model returns \<open>EmptyFrame\<close> there instead of carrying a NaN through the lists.
\<close>

definition append_extrema :: "strk_row list \<Rightarrow> locals \<Rightarrow> py_error + locals" where
  "append_extrema df s =
     (case (col_min (gain_col df), col_max (gain_col df),
            col_min (map col_strk_cum df), col_max (map col_strk_cum df),
            col_min (map col_strk_mths df), col_max (map col_strk_mths df)) of
        (Some g0, Some g1, Some c0, Some c1, Some m0, Some m1) \<Rightarrow>
          Inr (s\<lparr>min_gain_val_lst := min_gain_val_lst s @ [g0],
                 max_gain_val_lst := max_gain_val_lst s @ [g1],
                 min_cum_val_lst := min_cum_val_lst s @ [c0],
                 max_cum_val_lst := max_cum_val_lst s @ [c1],
                 min_mth_val_lst := min_mth_val_lst s @ [m0],
                 max_mth_val_lst := max_mth_val_lst s @ [m1]\<rparr>)
      | _ \<Rightarrow> Inl EmptyFrame)"

text \<open>
  Lines 270 to 283: the series ends with the streak open. The label is made, the totals
  are written, the frame and its extrema are appended. The counters are left as they are.
\<close>

definition close_at_end :: "date \<Rightarrow> locals \<Rightarrow> py_error + locals" where
  "close_at_end d s =
     (let strk_end_mth_str = strftime_Ym d;
          strk_label = strk_start_mth_str s @ '' to '' @ strk_end_mth_str
      in if strk_mths s = 0 then Inl ZeroDivisionError
         else
           (let df = set_totals (strk_mths s) (strk_cum s) (strk_df s)
            in append_extrema df
                 (s\<lparr>strk_label_lst := strk_label_lst s @ [strk_label],
                    strk_df := df,
                    strk_df_lst := strk_df_lst s @ [df],
                    strk_cds_lst := strk_cds_lst s @ [df]\<rparr>)))"

text \<open>
  Lines 289 to 304: a month without a gain follows a month with one. The totals are
  written, the counters reset, the label made from the month before, the frame and its
  extrema appended.
\<close>

definition close_on_drop :: "date \<Rightarrow> locals \<Rightarrow> py_error + locals" where
  "close_on_drop d_prev s =
     (if strk_mths s = 0 then Inl ZeroDivisionError
      else
        (let df = set_totals (strk_mths s) (strk_cum s) (strk_df s);
             strk_end_mth_str = strftime_Ym d_prev;
             strk_label = strk_start_mth_str s @ '' to '' @ strk_end_mth_str
         in append_extrema df
              (s\<lparr>strk_df := df, strk_mths := 0, strk_cum := 0,
                 strk_label_lst := strk_label_lst s @ [strk_label],
                 strk_df_lst := strk_df_lst s @ [df],
                 strk_cds_lst := strk_cds_lst s @ [df]\<rparr>)))"

text \<open>
  The body of the loop at index \<open>i\<close> (lines 245 to 304). With a NaN gain neither branch
  runs. The \<open>elif\<close> reads \<open>usempl_df.loc[i - 1, "empl_mth_gain"]\<close> before it tests \<open>i > 0\<close>:
  at \<open>i = 0\<close> with a gain that is a number and not positive the label \<open>-1\<close> is looked up,
  which raises \<open>KeyError\<close>.
\<close>

definition loop_body :: "obs list \<Rightarrow> nat \<Rightarrow> locals \<Rightarrow> py_error + locals" where
  "loop_body usempl_df i s =
     (case empl_mth_gain (usempl_df ! i) of
        None \<Rightarrow> Inr s
      | Some g \<Rightarrow>
          if g > 0 then
            (let s' = add_member (usempl_df ! i) g (open_streak i (Date (usempl_df ! i)) s)
             in if i = length usempl_df - 1
                then close_at_end (Date (usempl_df ! i)) s'
                else Inr s')
          else if i = 0 then Inl KeyError
          else
            (case empl_mth_gain (usempl_df ! (i - 1)) of
               None \<Rightarrow> Inr s
             | Some p \<Rightarrow>
                 if p > 0 then close_on_drop (Date (usempl_df ! (i - 1))) s else Inr s))"

text \<open>\<open>for i in range(...)\<close>: the body at each index in turn, stopping at the first error.\<close>

fun for_range :: "(nat \<Rightarrow> 's \<Rightarrow> py_error + 's) \<Rightarrow> nat list \<Rightarrow> 's \<Rightarrow> py_error + 's" where
  "for_range body [] s = Inr s"
| "for_range body (i # is) s =
     (case body i s of Inl e \<Rightarrow> Inl e | Inr s' \<Rightarrow> for_range body is s')"

definition segment_from :: "locals \<Rightarrow> obs list \<Rightarrow> py_error + locals" where
  "segment_from s0 usempl_df =
     for_range (loop_body usempl_df) [0..<length usempl_df] (init_locals s0)"

text \<open>A starting state for the locals; the loop does not depend on it (see below).\<close>

definition no_locals :: locals where
  "no_locals = \<lparr>strk_df_lst = [], strk_cds_lst = [], strk_label_lst = [],
     min_gain_val_lst = [], max_gain_val_lst = [],
     min_cum_val_lst = [], max_cum_val_lst = [],
     min_mth_val_lst = [], max_mth_val_lst = [],
     strk_num = 0, strk_mths = 0, strk_cum = 0, j = 0, strk_df = [],
     strk_start_mth_str = []\<rparr>"

definition segment :: "obs list \<Rightarrow> py_error + locals" where
  "segment usempl_df = segment_from no_locals usempl_df"

section \<open>Global extrema and the chart\<close>

definition bind_err :: "py_error + 'a \<Rightarrow> ('a \<Rightarrow> py_error + 'b) \<Rightarrow> py_error + 'b" where
  "bind_err m f = (case m of Inl e \<Rightarrow> Inl e | Inr x \<Rightarrow> f x)"

text \<open>Python's \<open>min\<close> and \<open>max\<close> of a list raise \<open>ValueError\<close> on the empty list.\<close>

definition py_min :: "('a::linorder) list \<Rightarrow> py_error + 'a" where
  "py_min xs = (case xs of [] \<Rightarrow> Inl ValueError | x # ys \<Rightarrow> Inr (fold min ys x))"

definition py_max :: "('a::linorder) list \<Rightarrow> py_error + 'a" where
  "py_max xs = (case xs of [] \<Rightarrow> Inl ValueError | x # ys \<Rightarrow> Inr (fold max ys x))"

text \<open>\<open>xs[i]\<close> for an index that is not negative.\<close>

definition py_nth :: "'a list \<Rightarrow> nat \<Rightarrow> py_error + 'a" where
  "py_nth xs i = (if i < length xs then Inr (xs ! i) else Inl IndexError)"

text \<open>
  \<open>Viridis8\<close> is Bokeh's palette of eight colours. \<open>Viridis8[k]\<close> follows Python's
  indexing: \<open>0 \<le> k < 8\<close> reads position \<open>k\<close>, \<open>-8 \<le> k < 0\<close> reads position \<open>8 + k\<close>,
  anything else raises \<open>IndexError\<close>. A colour of the palette is recorded by its position.
\<close>

datatype color = Viridis8_at nat | orange

definition Viridis8_getitem :: "int \<Rightarrow> py_error + color" where
  "Viridis8_getitem k =
     (if 0 \<le> k \<and> k < 8 then Inr (Viridis8_at (nat k))
      else if - 8 \<le> k \<and> k < 0 then Inr (Viridis8_at (nat (8 + k)))
      else Inl IndexError)"

text \<open>A line drawn by \<open>fig.line\<close>: its data source, colour and width.\<close>

record glyph =
  source :: "strk_row list"
  line_color :: color
  line_width :: nat

text \<open>The variables of the drawing loop (lines 366 to 393); \<open>j\<close> starts at \<open>-1\<close>.\<close>

record draw_vars =
  draw_j :: int
  fig_lst :: "glyph list"
  label_items_lst :: "(string \<times> glyph list) list"

definition draw_highlighted :: "locals \<Rightarrow> nat \<Rightarrow> draw_vars \<Rightarrow> py_error + draw_vars" where
  "draw_highlighted s i v =
     (let j' = draw_j v + 1
      in bind_err (py_nth (strk_cds_lst s) i) (\<lambda>src.
         bind_err (Viridis8_getitem (7 - j')) (\<lambda>col.
         bind_err (py_nth (strk_label_lst s) i) (\<lambda>lbl.
           (let li = \<lparr>source = src, line_color = col, line_width = 4\<rparr>
            in Inr \<lparr>draw_j = j', fig_lst = fig_lst v @ [li],
                    label_items_lst = label_items_lst v @ [(lbl, [li])]\<rparr>)))))"

definition draw_plain :: "locals \<Rightarrow> nat \<Rightarrow> draw_vars \<Rightarrow> py_error + draw_vars" where
  "draw_plain s i v =
     bind_err (py_nth (strk_cds_lst s) i) (\<lambda>src.
       (let li = \<lparr>source = src, line_color = orange, line_width = 2\<rparr>
        in Inr (v\<lparr>fig_lst := fig_lst v @ [li]\<rparr>)))"

text \<open>
  Line 370: \<open>max_cum_val_lst[i] > 10_000 or max_mth_val_lst[i] > 40\<close>; the second list is
  read only when the first test fails.
\<close>

definition draw_body :: "locals \<Rightarrow> nat \<Rightarrow> draw_vars \<Rightarrow> py_error + draw_vars" where
  "draw_body s i v =
     bind_err (py_nth (max_cum_val_lst s) i) (\<lambda>mc.
       if mc > 10000 then draw_highlighted s i v
       else bind_err (py_nth (max_mth_val_lst s) i) (\<lambda>mm.
         if mm > 40 then draw_highlighted s i v else draw_plain s i v))"

definition draw_streaks :: "locals \<Rightarrow> py_error + draw_vars" where
  "draw_streaks s =
     for_range (draw_body s) [0..<strk_num s]
       \<lparr>draw_j = - 1, fig_lst = [], label_items_lst = []\<rparr>"

text \<open>
  What \<open>usempl_streaks\<close> has built when it returns: the streak frames and their labels, the
  four global extrema of lines 329 to 332, the two axis ranges, the lines and the items
  of the legend (whose \<open>click_policy\<close> is \<open>"mute"\<close>: a click on an item mutes its line).
\<close>

record chart =
  streaks :: "strk_row list list"
  labels :: "string list"
  min_cum_val :: rat
  max_cum_val :: rat
  min_mth_val :: nat
  max_mth_val :: nat
  y_range :: "rat \<times> rat"
  x_range :: "rat \<times> rat"
  renderers :: "glyph list"
  legend_items :: "(string \<times> glyph list) list"

text \<open>
  \<open>usempl_streaks\<close> from the loaded frame on. Line 225 reads \<open>usempl_df.loc[0, "Date"]\<close>,
  which raises \<open>KeyError\<close> on a frame without rows.
\<close>

definition usempl_streaks :: "obs list \<Rightarrow> py_error + chart" where
  "usempl_streaks usempl_df =
     (if usempl_df = [] then Inl KeyError
      else
        bind_err (segment usempl_df) (\<lambda>s.
        bind_err (py_min (min_cum_val_lst s)) (\<lambda>min_cum.
        bind_err (py_max (max_cum_val_lst s)) (\<lambda>max_cum.
        bind_err (py_min (min_mth_val_lst s)) (\<lambda>min_mth.
        bind_err (py_max (max_mth_val_lst s)) (\<lambda>max_mth.
          (let datarange_cum_vals = max_cum - min_cum;
               datarange_mth_vals = min_mth + max_mth;
               fig_buffer_pct = 5 / 100
           in bind_err (draw_streaks s) (\<lambda>v.
                Inr \<lparr>streaks = strk_df_lst s, labels = strk_label_lst s,
                     min_cum_val = min_cum, max_cum_val = max_cum,
                     min_mth_val = min_mth, max_mth_val = max_mth,
                     y_range = (min_cum - fig_buffer_pct * datarange_cum_vals,
                                max_cum + fig_buffer_pct * datarange_cum_vals),
                     x_range = (of_nat min_mth - fig_buffer_pct * of_nat datarange_mth_vals,
                                of_nat max_mth + fig_buffer_pct * of_nat datarange_mth_vals),
                     renderers = fig_lst v,
                     legend_items = label_items_lst v\<rparr>))))))))"

section \<open>The segmentation, stated on the series\<close>

text \<open>
  The notions below speak about the series itself and are what the loop is compared with.
  A gain is positive when it is a number above zero. The loader's series has a NaN gain
  in its first row and a number in every other row.
\<close>

definition pos_gain :: "obs \<Rightarrow> bool" where
  "pos_gain r = (case empl_mth_gain r of None \<Rightarrow> False | Some g \<Rightarrow> g > 0)"

definition gain_val :: "obs \<Rightarrow> rat" where
  "gain_val r = (case empl_mth_gain r of None \<Rightarrow> 0 | Some g \<Rightarrow> g)"

definition wf_series :: "obs list \<Rightarrow> bool" where
  "wf_series usempl_df =
     (case usempl_df of [] \<Rightarrow> True
      | r # rs \<Rightarrow> empl_mth_gain r = None \<and> (\<forall>x \<in> set rs. empl_mth_gain x \<noteq> None))"

text \<open>
  Reading the series from the left: the runs of months with a positive gain that have
  ended, and the run still going on.
\<close>

definition seg_step :: "obs list list \<times> obs list \<Rightarrow> obs \<Rightarrow> obs list list \<times> obs list" where
  "seg_step p r =
     (if pos_gain r then (fst p, snd p @ [r])
      else if snd p = [] then p else (fst p @ [snd p], []))"

definition seg_prefix :: "obs list \<Rightarrow> obs list list \<times> obs list" where
  "seg_prefix rows = foldl seg_step ([], []) rows"

definition pos_runs :: "obs list \<Rightarrow> obs list list" where
  "pos_runs rows =
     (if snd (seg_prefix rows) = [] then fst (seg_prefix rows)
      else fst (seg_prefix rows) @ [snd (seg_prefix rows)])"

text \<open>The frame of a run: its rows with the running counter and sum, then the totals.\<close>

fun running :: "nat \<Rightarrow> rat \<Rightarrow> obs list \<Rightarrow> strk_row list" where
  "running m c [] = []"
| "running m c (r # rs) =
     \<lparr>member = r, col_strk_mths = m + 1, col_strk_cum = c + gain_val r, strk_mths_tot = None,
      strk_avg_emp_gain = None, strk_cum_tot = None\<rparr> # running (m + 1) (c + gain_val r) rs"

definition frame_of :: "obs list \<Rightarrow> strk_row list" where
  "frame_of run = set_totals (length run) (sum_list (map gain_val run)) (running 0 0 run)"

definition label_of :: "obs list \<Rightarrow> string" where
  "label_of run = strftime_Ym (Date (hd run)) @ '' to '' @ strftime_Ym (Date (last run))"

text \<open>The locals hold the frames, labels and per-streak extrema of the runs \<open>cl\<close>.\<close>

definition collected :: "obs list list \<Rightarrow> locals \<Rightarrow> bool" where
  "collected cl s \<longleftrightarrow>
     strk_df_lst s = map frame_of cl \<and>
     strk_cds_lst s = map frame_of cl \<and>
     strk_label_lst s = map label_of cl \<and>
     min_gain_val_lst s = map (\<lambda>r. Min (set (map gain_val r))) cl \<and>
     max_gain_val_lst s = map (\<lambda>r. Max (set (map gain_val r))) cl \<and>
     min_cum_val_lst s = map (\<lambda>r. Min (set (map col_strk_cum (running 0 0 r)))) cl \<and>
     max_cum_val_lst s = map (\<lambda>r. Max (set (map col_strk_cum (running 0 0 r)))) cl \<and>
     min_mth_val_lst s = map (\<lambda>r. Min (set (map col_strk_mths (running 0 0 r)))) cl \<and>
     max_mth_val_lst s = map (\<lambda>r. Max (set (map col_strk_mths (running 0 0 r)))) cl"

text \<open>The invariant of the loop after the rows that \<open>p\<close> has been read from.\<close>

definition seg_inv :: "obs list list \<times> obs list \<Rightarrow> locals \<Rightarrow> bool" where
  "seg_inv p s \<longleftrightarrow>
     collected (fst p) s \<and>
     strk_num s = length (fst p) + (if snd p = [] then 0 else 1) \<and>
     strk_mths s = length (snd p) \<and>
     strk_cum s = sum_list (map gain_val (snd p)) \<and>
     (snd p \<noteq> [] \<longrightarrow>
        strk_df s = running 0 0 (snd p) \<and>
        strk_start_mth_str s = strftime_Ym (Date (hd (snd p))))"

definition example_A :: "obs list" where
  "example_A = with_gain
     [(\<lparr>year = 2020, month = 1, day = 1\<rparr>, 100), (\<lparr>year = 2020, month = 2, day = 1\<rparr>, 105),
      (\<lparr>year = 2020, month = 3, day = 1\<rparr>, 108), (\<lparr>year = 2020, month = 4, day = 1\<rparr>, 107),
      (\<lparr>year = 2020, month = 5, day = 1\<rparr>, 109), (\<lparr>year = 2020, month = 6, day = 1\<rparr>, 111),
      (\<lparr>year = 2020, month = 7, day = 1\<rparr>, 113)]"

definition example_B :: "obs list" where
  "example_B = with_gain
     [(\<lparr>year = 2020, month = 1, day = 1\<rparr>, 100), (\<lparr>year = 2020, month = 2, day = 1\<rparr>, 99),
      (\<lparr>year = 2020, month = 3, day = 1\<rparr>, 98), (\<lparr>year = 2020, month = 4, day = 1\<rparr>, 99)]"

definition example_C :: "obs list" where
  "example_C = with_gain
     [(\<lparr>year = 2020, month = 1, day = 1\<rparr>, 100), (\<lparr>year = 2020, month = 2, day = 1\<rparr>, 101),
      (\<lparr>year = 2020, month = 3, day = 1\<rparr>, 102), (\<lparr>year = 2020, month = 4, day = 1\<rparr>, 103)]"

text \<open>
  A streak is highlighted in the chart when its largest running cumulative gain is above
  10000 or it has more than 40 months.
\<close>

definition highlighted :: "strk_row list \<Rightarrow> bool" where
  "highlighted df \<longleftrightarrow> Max (set (map col_strk_cum df)) > 10000 \<or> length df > 40"

text \<open>How many of the first \<open>k\<close> streaks are highlighted.\<close>

definition highlighted_before :: "strk_row list list \<Rightarrow> nat \<Rightarrow> nat" where
  "highlighted_before dfs k = length (filter highlighted (take k dfs))"

text \<open>The date range of a streak: its first month, \<open>" to "\<close>, its last month.\<close>

definition range_label :: "strk_row list \<Rightarrow> string" where
  "range_label df =
     strftime_Ym (Date (member (hd df))) @ '' to '' @ strftime_Ym (Date (member (last df)))"

text \<open>The line of the streak at position \<open>k\<close>, as the drawing loop makes it.\<close>

definition line_of :: "strk_row list list \<Rightarrow> nat \<Rightarrow> glyph" where
  "line_of dfs k =
     (if highlighted (dfs ! k)
      then \<lparr>source = dfs ! k,
            line_color =
              Viridis8_at (if highlighted_before dfs k < 8 then 7 - highlighted_before dfs k
                           else 15 - highlighted_before dfs k),
            line_width = 4\<rparr>
      else \<lparr>source = dfs ! k, line_color = orange, line_width = 2\<rparr>)"

text \<open>
  Two more series: one with a highlighted streak and a plain one, and one with seventeen
  highlighted streaks of one month each.
\<close>

definition example_D :: "obs list" where
  "example_D = with_gain
     [(\<lparr>year = 2020, month = 1, day = 1\<rparr>, 0), (\<lparr>year = 2020, month = 2, day = 1\<rparr>, 10001),
      (\<lparr>year = 2020, month = 3, day = 1\<rparr>, 10000), (\<lparr>year = 2020, month = 4, day = 1\<rparr>, 10001)]"

definition example_many :: "obs list" where
  "example_many = with_gain
     (map (\<lambda>i. (\<lparr>year = 2000 + i div 12, month = i mod 12 + 1, day = 1\<rparr>,
                 if even i then 0 else 10001)) [0..<35])"

text \<open>While a streak is open its frame has a row, and the row has a gain.\<close>

definition open_frame_ok :: "locals \<Rightarrow> bool" where
  "open_frame_ok s \<longleftrightarrow> (strk_mths s > 0 \<longrightarrow> strk_df s \<noteq> [] \<and> gain_col (strk_df s) \<noteq> [])"

text \<open>
  The Streak Collection that the loop has built: the frames (and their copies as data
  sources), the labels and the per-streak extrema.
\<close>

definition collection ::
  "locals \<Rightarrow> strk_row list list \<times> strk_row list list \<times> string list \<times>
     (rat list \<times> rat list) \<times> (rat list \<times> rat list) \<times> (nat list \<times> nat list)" where
  "collection s =
     (strk_df_lst s, strk_cds_lst s, strk_label_lst s,
      (min_gain_val_lst s, max_gain_val_lst s),
      (min_cum_val_lst s, max_cum_val_lst s),
      (min_mth_val_lst s, max_mth_val_lst s))"

text \<open>The segmentation of a series, started with the locals \<open>s0\<close> in whatever state.\<close>

definition segmentation ::
  "locals \<Rightarrow> obs list \<Rightarrow> py_error +
     strk_row list list \<times> strk_row list list \<times> string list \<times>
     (rat list \<times> rat list) \<times> (rat list \<times> rat list) \<times> (nat list \<times> nat list)" where
  "segmentation s0 usempl_df =
     (case segment_from s0 usempl_df of Inl e \<Rightarrow> Inl e | Inr s \<Rightarrow> Inr (collection s))"

text \<open>
  Two states of the locals that differ at most in \<open>j\<close> and, while no streak is open, in
  the frame and the start month of the streak closed last.
\<close>

definition same_visible :: "locals \<Rightarrow> locals \<Rightarrow> bool" where
  "same_visible s t \<longleftrightarrow>
     collection s = collection t \<and> strk_num s = strk_num t \<and>
     strk_mths s = strk_mths t \<and> strk_cum s = strk_cum t \<and>
     (strk_mths s > 0 \<longrightarrow>
        strk_df s = strk_df t \<and> strk_start_mth_str s = strk_start_mth_str t)"

text \<open>The four global extrema of a chart, in the order of lines 329 to 332.\<close>

definition global_extrema :: "chart \<Rightarrow> rat \<times> rat \<times> nat \<times> nat" where
  "global_extrema c = (min_cum_val c, max_cum_val c, min_mth_val c, max_mth_val c)"

section \<open>Facts about runs and frames\<close>

lemma seg_prefix_snoc: "seg_prefix (xs @ [r]) = seg_step (seg_prefix xs) r"
  by (simp add: seg_prefix_def)

lemma seg_prefix_Nil: "seg_prefix [] = ([], [])"
  by (simp add: seg_prefix_def)

lemma seg_concat: "concat (fst (seg_prefix xs)) @ snd (seg_prefix xs) = filter pos_gain xs"
  by (induction xs rule: rev_induct) (auto simp add: seg_prefix_snoc seg_prefix_Nil seg_step_def)

lemma seg_open_iff: "xs \<noteq> [] \<Longrightarrow> snd (seg_prefix xs) \<noteq> [] \<longleftrightarrow> pos_gain (last xs)"
  by (induction xs rule: rev_induct) (simp_all add: seg_prefix_snoc seg_step_def)

lemma seg_open_last: "snd (seg_prefix xs) \<noteq> [] \<Longrightarrow> last (snd (seg_prefix xs)) = last xs"
  by (induction xs rule: rev_induct) (auto simp add: seg_prefix_snoc seg_prefix_Nil seg_step_def split: if_splits)

lemma seg_closed_ne: "r \<in> set (fst (seg_prefix xs)) \<Longrightarrow> r \<noteq> []"
  by (induction xs rule: rev_induct) (auto simp add: seg_prefix_snoc seg_prefix_Nil seg_step_def split: if_splits)

lemma seg_all_pos: "(\<forall>r \<in> set (fst (seg_prefix xs)). \<forall>x \<in> set r. pos_gain x) \<and> (\<forall>x \<in> set (snd (seg_prefix xs)). pos_gain x)"
  by (induction xs rule: rev_induct) (auto simp add: seg_prefix_snoc seg_prefix_Nil seg_step_def split: if_splits)

lemma pos_runs_concat: "concat (pos_runs xs) = filter pos_gain xs"
  using seg_concat [of xs] by (auto simp add: pos_runs_def)

lemma pos_runs_ne: "r \<in> set (pos_runs xs) \<Longrightarrow> r \<noteq> []"
  using seg_closed_ne [of r xs] by (auto simp: pos_runs_def split: if_splits)

lemma pos_runs_pos: "r \<in> set (pos_runs xs) \<Longrightarrow> x \<in> set r \<Longrightarrow> pos_gain x"
  using seg_all_pos [of xs] by (auto simp: pos_runs_def split: if_splits)

lemma running_snoc:
  "running m c (xs @ [r]) = running m c xs @
     [\<lparr>member = r, col_strk_mths = m + length xs + 1,
       col_strk_cum = c + sum_list (map gain_val xs) + gain_val r, strk_mths_tot = None,
       strk_avg_emp_gain = None, strk_cum_tot = None\<rparr>]"
  by (induction xs arbitrary: m c) (simp_all add: add.assoc)

lemma length_running [simp]: "length (running m c xs) = length xs"
  by (induction xs arbitrary: m c) simp_all

lemma map_member_running [simp]: "map member (running m c xs) = xs"
  by (induction xs arbitrary: m c) simp_all

lemma running_nth:
  "k < length xs \<Longrightarrow> running m c xs ! k =
     \<lparr>member = xs ! k, col_strk_mths = m + k + 1,
       col_strk_cum = c + sum_list (map gain_val (take (Suc k) xs)), strk_mths_tot = None,
       strk_avg_emp_gain = None, strk_cum_tot = None\<rparr>"
proof (induction xs arbitrary: m c k)
  case Nil
  then show ?case by simp
next
  case (Cons x xs)
  show ?case
  proof (cases k)
    case 0
    then show ?thesis by simp
  next
    case (Suc k')
    with Cons.prems have "k' < length xs" by simp
    from Cons.IH [OF this, of "m + 1" "c + gain_val x"] Suc show ?thesis
      by (simp add: add.assoc)
  qed
qed

lemma col_min_ne: "xs \<noteq> [] \<Longrightarrow> col_min xs = Some (Min (set xs))"
  by (cases xs) (simp_all add: col_min_def Min.set_eq_fold [symmetric] del: set_simps)

lemma col_max_ne: "xs \<noteq> [] \<Longrightarrow> col_max xs = Some (Max (set xs))"
  by (cases xs) (simp_all add: col_max_def Max.set_eq_fold [symmetric] del: set_simps)

lemma append_extrema_ok:
  assumes "df \<noteq> []" and "gain_col df \<noteq> []"
  shows "append_extrema df s =
     Inr (s\<lparr>min_gain_val_lst := min_gain_val_lst s @ [Min (set (gain_col df))],
            max_gain_val_lst := max_gain_val_lst s @ [Max (set (gain_col df))],
            min_cum_val_lst := min_cum_val_lst s @ [Min (set (map col_strk_cum df))],
            max_cum_val_lst := max_cum_val_lst s @ [Max (set (map col_strk_cum df))],
            min_mth_val_lst := min_mth_val_lst s @ [Min (set (map col_strk_mths df))],
            max_mth_val_lst := max_mth_val_lst s @ [Max (set (map col_strk_mths df))]\<rparr>)"
  using assms by (simp add: append_extrema_def col_min_ne col_max_ne)

lemma gain_col_running:
  "\<forall>x \<in> set xs. pos_gain x \<Longrightarrow> gain_col (set_totals a b (running m c xs)) = map gain_val xs"
  by (induction xs arbitrary: m c)
     (auto simp add: gain_col_def set_totals_def map_filter_simps pos_gain_def gain_val_def
           split: option.splits)

lemma cum_col_totals [simp]: "map col_strk_cum (set_totals a b df) = map col_strk_cum df"
  by (simp add: set_totals_def)

lemma mths_col_totals [simp]: "map col_strk_mths (set_totals a b df) = map col_strk_mths df"
  by (simp add: set_totals_def)

lemma set_totals_Nil_iff [simp]: "set_totals a b df = [] \<longleftrightarrow> df = []"
  by (simp add: set_totals_def)

lemma running_Nil_iff [simp]: "running m c xs = [] \<longleftrightarrow> xs = []"
  by (cases xs) simp_all

lemma close_on_drop_ok:
  assumes "collected cl s" and "op \<noteq> []" and "\<forall>x \<in> set op. pos_gain x"
    and "strk_mths s = length op" and "strk_cum s = sum_list (map gain_val op)"
    and "strk_df s = running 0 0 op"
    and "strk_start_mth_str s = strftime_Ym (Date (hd op))"
    and "d = Date (last op)"
  shows "\<exists>s'. close_on_drop d s = Inr s' \<and> collected (cl @ [op]) s' \<and>
           strk_num s' = strk_num s \<and> strk_mths s' = 0 \<and> strk_cum s' = 0"
proof -
  let ?df = "set_totals (length op) (sum_list (map gain_val op)) (running 0 0 op)"
  have g: "gain_col ?df = map gain_val op"
    using assms(3) by (rule gain_col_running)
  have ne: "?df \<noteq> []" "gain_col ?df \<noteq> []"
    using assms(2) by (simp_all add: g)
  show ?thesis
    using assms
    by (simp add: close_on_drop_def Let_def append_extrema_ok [OF ne] g collected_def
          frame_of_def label_of_def)
qed

lemma close_at_end_ok:
  assumes "collected cl s" and "op \<noteq> []" and "\<forall>x \<in> set op. pos_gain x"
    and "strk_mths s = length op" and "strk_cum s = sum_list (map gain_val op)"
    and "strk_df s = running 0 0 op"
    and "strk_start_mth_str s = strftime_Ym (Date (hd op))"
    and "d = Date (last op)"
  shows "\<exists>s'. close_at_end d s = Inr s' \<and> collected (cl @ [op]) s' \<and>
           strk_num s' = strk_num s"
proof -
  let ?df = "set_totals (length op) (sum_list (map gain_val op)) (running 0 0 op)"
  have g: "gain_col ?df = map gain_val op"
    using assms(3) by (rule gain_col_running)
  have ne: "?df \<noteq> []" "gain_col ?df \<noteq> []"
    using assms(2) by (simp_all add: g)
  show ?thesis
    using assms
    by (simp add: close_at_end_def Let_def append_extrema_ok [OF ne] g collected_def
          frame_of_def label_of_def)
qed

lemma add_member_inv:
  assumes "seg_inv p s" and "empl_mth_gain r = Some g" and "g > 0"
  shows "seg_inv (fst p, snd p @ [r]) (add_member r g (open_streak i (Date r) s))"
proof (cases "snd p = []")
  case True
  with assms show ?thesis
    by (simp add: seg_inv_def add_member_def open_streak_def Let_def collected_def
          gain_val_def)
next
  case False
  with assms show ?thesis
    by (simp add: seg_inv_def add_member_def open_streak_def Let_def collected_def
          gain_val_def running_snoc)
qed

section \<open>The loop computes the runs\<close>

lemma for_range_append:
  "for_range b (xs @ ys) s = (case for_range b xs s of Inl e \<Rightarrow> Inl e | Inr s' \<Rightarrow> for_range b ys s')"
  by (induction xs arbitrary: s) (simp_all split: sum.splits)

lemma for_range_snoc:
  "for_range b (xs @ [k]) s = (case for_range b xs s of Inl e \<Rightarrow> Inl e | Inr s' \<Rightarrow> b k s')"
  by (simp add: for_range_append split: sum.splits)

lemma wf_gain_Some: "wf_series rows \<Longrightarrow> 0 < i \<Longrightarrow> i < length rows \<Longrightarrow> \<exists>g. empl_mth_gain (rows ! i) = Some g"
  by (cases rows; cases i) (auto simp: wf_series_def)

lemma wf_gain_None: "wf_series rows \<Longrightarrow> 0 < length rows \<Longrightarrow> empl_mth_gain (rows ! 0) = None"
  by (cases rows) (auto simp: wf_series_def)

lemma seg_inv_init: "seg_inv ([], []) (init_locals s0)"
  by (simp add: seg_inv_def collected_def init_locals_def)

text \<open>One turn of the loop, not the last one, or the last one on a month without gain.\<close>

lemma loop_body_step:
  assumes wf: "wf_series rows" and i: "i < length rows"
    and inv: "seg_inv (seg_prefix (take i rows)) s"
    and nl: "Suc i < length rows \<or> \<not> pos_gain (rows ! i)"
  shows "\<exists>s'. loop_body rows i s = Inr s' \<and> seg_inv (seg_prefix (take (Suc i) rows)) s'"
proof -
  let ?p = "seg_prefix (take i rows)"
  let ?r = "rows ! i"
  have nxt: "seg_prefix (take (Suc i) rows) = seg_step ?p ?r"
    using i by (simp add: take_Suc_conv_app_nth seg_prefix_snoc)
  show ?thesis
  proof (cases "empl_mth_gain ?r")
    case None
    with wf i have "i = 0" using wf_gain_Some [of rows i] by fastforce
    with None inv have "seg_inv (seg_step ?p ?r) s"
      by (simp add: seg_step_def pos_gain_def seg_prefix_Nil)
    with None show ?thesis
      unfolding nxt by (simp add: loop_body_def)
  next
    case (Some g)
    show ?thesis
    proof (cases "g > 0")
      case True
      with Some nl have "Suc i < length rows" by (simp add: pos_gain_def)
      then have "i \<noteq> length rows - 1" by simp
      moreover have "seg_step ?p ?r = (fst ?p, snd ?p @ [?r])"
        using Some True by (simp add: seg_step_def pos_gain_def)
      ultimately show ?thesis
        using add_member_inv [OF inv Some True, of i] Some True
        by (simp add: loop_body_def Let_def nxt)
    next
      case False
      with Some have np: "\<not> pos_gain ?r" by (simp add: pos_gain_def)
      from wf i Some have i0: "0 < i" using wf_gain_None [of rows] by (cases i) auto
      then have tk1: "take i rows \<noteq> []"
        using i by auto
      have "last (take i rows) = take i rows ! (length (take i rows) - 1)"
        using tk1 by (rule last_conv_nth)
      also have "\<dots> = rows ! (i - 1)"
        using i i0 by simp
      finally have tk: "take i rows \<noteq> []" "last (take i rows) = rows ! (i - 1)"
        using tk1 by simp_all
      show ?thesis
      proof (cases "pos_gain (rows ! (i - 1))")
        case True
        then have op: "snd ?p \<noteq> []" using seg_open_iff [OF tk(1)] tk(2) by simp
        have allp: "\<forall>x \<in> set (snd ?p). pos_gain x"
          using seg_all_pos [of "take i rows"] by blast
        have d: "Date (rows ! (i - 1)) = Date (last (snd ?p))"
          using seg_open_last [OF op] tk(2) by simp
        from inv op have
          "collected (fst ?p) s" "strk_mths s = length (snd ?p)"
          "strk_cum s = sum_list (map gain_val (snd ?p))"
          "strk_df s = running 0 0 (snd ?p)"
          "strk_start_mth_str s = strftime_Ym (Date (hd (snd ?p)))"
          "strk_num s = length (fst ?p) + 1"
          by (simp_all add: seg_inv_def)
        from close_on_drop_ok [OF this(1) op allp this(2-5) d] this(6)
        obtain s' where s': "close_on_drop (Date (rows ! (i - 1))) s = Inr s'"
          "collected (fst ?p @ [snd ?p]) s'" "strk_num s' = length (fst ?p) + 1"
          "strk_mths s' = 0" "strk_cum s' = 0"
          by auto
        have "loop_body rows i s = Inr s'"
          using Some False i0 True s'(1)
          by (auto simp add: loop_body_def pos_gain_def split: option.splits)
        moreover have "seg_step ?p ?r = (fst ?p @ [snd ?p], [])"
          using np op by (simp add: seg_step_def)
        ultimately show ?thesis
          using s' by (simp add: nxt seg_inv_def)
      next
        case False
        then have op: "snd ?p = []" using seg_open_iff [OF tk(1)] tk(2) by simp
        have "loop_body rows i s = Inr s"
          using Some \<open>\<not> g > 0\<close> i0 False
          by (auto simp add: loop_body_def pos_gain_def split: option.splits)
        moreover have "seg_step ?p ?r = ?p"
          using np op by (simp add: seg_step_def)
        ultimately show ?thesis
          using inv by (simp add: nxt)
      qed
    qed
  qed
qed

text \<open>The last turn of the loop on a month with a gain: the open streak is closed there.\<close>

lemma loop_body_last:
  assumes wf: "wf_series rows" and i: "Suc i = length rows"
    and inv: "seg_inv (seg_prefix (take i rows)) s"
    and pos: "pos_gain (rows ! i)"
  shows "\<exists>s'. loop_body rows i s = Inr s' \<and> collected (pos_runs rows) s' \<and>
           strk_num s' = length (pos_runs rows)"
proof -
  let ?p = "seg_prefix (take i rows)"
  let ?r = "rows ! i"
  from pos obtain g where g: "empl_mth_gain ?r = Some g" "g > 0"
    by (auto simp: pos_gain_def split: option.splits)
  have "take (Suc i) rows = rows" using i by simp
  then have "seg_prefix rows = seg_step ?p ?r"
    using i by (metis lessI seg_prefix_snoc take_Suc_conv_app_nth)
  then have sp: "seg_prefix rows = (fst ?p, snd ?p @ [?r])"
    using pos by (simp add: seg_step_def)
  then have runs: "pos_runs rows = fst ?p @ [snd ?p @ [?r]]"
    by (simp add: pos_runs_def)
  let ?s1 = "add_member ?r g (open_streak i (Date ?r) s)"
  have inv1: "seg_inv (fst ?p, snd ?p @ [?r]) ?s1"
    by (rule add_member_inv [OF inv g])
  have allp: "\<forall>x \<in> set (snd ?p @ [?r]). pos_gain x"
    using seg_all_pos [of "take i rows"] pos by auto
  from inv1 have
    "collected (fst ?p) ?s1" "strk_mths ?s1 = length (snd ?p @ [?r])"
    "strk_cum ?s1 = sum_list (map gain_val (snd ?p @ [?r]))"
    "strk_df ?s1 = running 0 0 (snd ?p @ [?r])"
    "strk_start_mth_str ?s1 = strftime_Ym (Date (hd (snd ?p @ [?r])))"
    "strk_num ?s1 = length (fst ?p) + 1"
    by (simp_all add: seg_inv_def)
  from close_at_end_ok [OF this(1) _ allp this(2-5), of "Date ?r"] this(6)
  obtain s' where s': "close_at_end (Date ?r) ?s1 = Inr s'"
    "collected (fst ?p @ [snd ?p @ [?r]]) s'" "strk_num s' = length (fst ?p) + 1"
    by auto
  have "i = length rows - 1" using i by simp
  then have "loop_body rows i s = close_at_end (Date ?r) ?s1"
    unfolding loop_body_def Let_def using g by simp
  then show ?thesis using s' runs by simp
qed

lemma loop_prefix:
  assumes wf: "wf_series rows"
  shows "k < length rows \<Longrightarrow>
     \<exists>s. for_range (loop_body rows) [0..<k] (init_locals s0) = Inr s \<and>
         seg_inv (seg_prefix (take k rows)) s"
proof (induction k)
  case 0
  then show ?case by (simp add: seg_prefix_Nil seg_inv_init)
next
  case (Suc k)
  then obtain s where s: "for_range (loop_body rows) [0..<k] (init_locals s0) = Inr s"
    "seg_inv (seg_prefix (take k rows)) s" by auto
  from Suc.prems have "k < length rows" "Suc k < length rows \<or> \<not> pos_gain (rows ! k)" by simp_all
  from loop_body_step [OF wf this(1) s(2) this(2)] s(1) show ?case
    by (auto simp add: for_range_snoc)
qed

lemma segment_from_runs:
  assumes wf: "wf_series rows"
  shows "\<exists>s. segment_from s0 rows = Inr s \<and> collected (pos_runs rows) s \<and>
           strk_num s = length (pos_runs rows)"
proof (cases rows rule: rev_cases)
  case Nil
  then show ?thesis
    by (simp add: segment_from_def pos_runs_def seg_prefix_Nil collected_def init_locals_def)
next
  case (snoc ys y)
  let ?k = "length ys"
  have k: "?k < length rows" "Suc ?k = length rows" using snoc by simp_all
  from loop_prefix [OF wf k(1), of s0] obtain s where
    s: "for_range (loop_body rows) [0..<?k] (init_locals s0) = Inr s"
    "seg_inv (seg_prefix (take ?k rows)) s" by auto
  have "[0..<length rows] = [0..<?k] @ [?k]"
    using snoc by simp
  then have unf: "segment_from s0 rows = loop_body rows ?k s"
    using s(1) by (simp add: segment_from_def for_range_snoc)
  show ?thesis
  proof (cases "pos_gain (rows ! ?k)")
    case True
    from loop_body_last [OF wf k(2) s(2) True] unf show ?thesis by simp
  next
    case False
    from loop_body_step [OF wf k(1) s(2)] False obtain s' where
      s': "loop_body rows ?k s = Inr s'" "seg_inv (seg_prefix (take (Suc ?k) rows)) s'" by auto
    have "take (Suc ?k) rows = rows" using k by simp
    moreover have "rows ! ?k = last rows" using snoc by simp
    then have "snd (seg_prefix rows) = []"
      using False seg_open_iff [of rows] snoc by auto
    ultimately show ?thesis
      using s' unf by (simp add: seg_inv_def pos_runs_def)
  qed
qed

lemmas segment_eval =
  segment_def segment_from_def init_locals_def no_locals_def loop_body_def Let_def
  open_streak_def add_member_def close_at_end_def close_on_drop_def set_totals_def
  append_extrema_def col_min_def col_max_def gain_col_def strftime_Ym_def
  digit_char_def upt_rec [of _ "numeral _"] upt_rec [of _ "Suc _"]

lemma wf_series_with_gain: "wf_series (with_gain xs)"
proof -
  have "\<forall>x \<in> set (diff_from p ys). empl_mth_gain x \<noteq> None" for p ys
    by (induction p ys rule: diff_from.induct) simp_all
  then show ?thesis
    by (cases xs rule: with_gain.cases) (simp_all add: wf_series_def)
qed

lemma frame_of_rows:
  "r \<in> set (frame_of run) \<Longrightarrow>
     strk_mths_tot r = Some (length run) \<and>
     strk_cum_tot r = Some (sum_list (map gain_val run)) \<and>
     strk_avg_emp_gain r = Some (sum_list (map gain_val run) / of_nat (length run))"
  by (auto simp: frame_of_def set_totals_def)

lemma member_frame_of [simp]: "map member (frame_of run) = run"
  by (simp add: frame_of_def set_totals_def comp_def)

lemma length_frame_of [simp]: "length (frame_of run) = length run"
  by (simp add: frame_of_def set_totals_def)

lemma frame_of_Nil_iff [simp]: "frame_of run = [] \<longleftrightarrow> run = []"
  by (simp add: frame_of_def)

lemma gain_col_frame_of: "\<forall>x \<in> set run. pos_gain x \<Longrightarrow> gain_col (frame_of run) = map gain_val run"
  by (simp add: frame_of_def gain_col_running)

lemma frame_of_nth:
  "k < length run \<Longrightarrow>
     member (frame_of run ! k) = run ! k \<and>
     col_strk_mths (frame_of run ! k) = k + 1 \<and>
     col_strk_cum (frame_of run ! k) = sum_list (map gain_val (take (Suc k) run))"
  by (simp add: frame_of_def set_totals_def running_nth)

lemma segment_runs:
  assumes "wf_series rows"
  obtains s where "segment rows = Inr s" "collected (pos_runs rows) s"
    "strk_num s = length (pos_runs rows)" "strk_df_lst s = map frame_of (pos_runs rows)"
  using segment_from_runs [OF assms, of no_locals] by (auto simp: segment_def collected_def)

lemma segment_example_A:
  "map_sum id (\<lambda>s. map gain_col (strk_df_lst s)) (segment example_A) = Inr [[5, 3], [2, 2, 2]]"
  by (simp add: example_A_def segment_eval)

text \<open>
  C1. For every series of the loader, the loop returns, and the members of its streaks,
  read streak after streak, are exactly the observations with a positive gain, each once
  and in the order of the series. So the dates of the members are the dates with a
  positive gain, no streak is empty, every member has a positive gain, and with dates that
  differ from row to row no date is a member twice and no month without a positive gain
  (the month before a streak among them) has its date in a streak.
\<close>

theorem positive_gains_partitioned:
  assumes "wf_series usempl_df"
  shows "\<exists>s. segment usempl_df = Inr s \<and>
     concat (map (map member) (strk_df_lst s)) = filter pos_gain usempl_df \<and>
     (\<Union>df \<in> set (strk_df_lst s). Date ` member ` set df) =
       Date ` {r \<in> set usempl_df. pos_gain r} \<and>
     (\<forall>df \<in> set (strk_df_lst s). df \<noteq> [] \<and> (\<forall>r \<in> set df. pos_gain (member r))) \<and>
     (distinct (map Date usempl_df) \<longrightarrow>
        distinct (map (Date \<circ> member) (concat (strk_df_lst s))) \<and>
        (\<forall>r \<in> set usempl_df. \<not> pos_gain r \<longrightarrow>
           Date r \<notin> (\<Union>df \<in> set (strk_df_lst s). Date ` member ` set df)))"
proof -
  from assms obtain s where s: "segment usempl_df = Inr s"
    "strk_df_lst s = map frame_of (pos_runs usempl_df)"
    by (rule segment_runs)
  have mem: "map (map member) (strk_df_lst s) = pos_runs usempl_df"
    by (simp add: s(2) comp_def)
  then have cc: "concat (map (map member) (strk_df_lst s)) = filter pos_gain usempl_df"
    by (simp add: pos_runs_concat)
  have mc: "map member (concat (strk_df_lst s)) = filter pos_gain usempl_df"
    using cc by (simp add: map_concat)
  have "(\<Union>df \<in> set (strk_df_lst s). Date ` member ` set df) =
      Date ` set (map member (concat (strk_df_lst s)))"
    by auto
  then have un: "(\<Union>df \<in> set (strk_df_lst s). Date ` member ` set df) =
      Date ` {r \<in> set usempl_df. pos_gain r}"
    by (simp only: mc set_filter)
  have ne: "\<forall>df \<in> set (strk_df_lst s). df \<noteq> [] \<and> (\<forall>r \<in> set df. pos_gain (member r))"
  proof (intro ballI conjI)
    fix df assume df: "df \<in> set (strk_df_lst s)"
    then obtain run where run: "run \<in> set (pos_runs usempl_df)" "df = frame_of run"
      by (auto simp: s(2))
    then show "df \<noteq> []" using pos_runs_ne [of run usempl_df] by simp
    fix r assume "r \<in> set df"
    then have "member r \<in> set (map member df)" by simp
    then have "member r \<in> set run" using run(2) by simp
    then show "pos_gain (member r)" using run(1) by (rule pos_runs_pos [rotated])
  qed
  have ds: "distinct (map (Date \<circ> member) (concat (strk_df_lst s))) \<and>
        (\<forall>r \<in> set usempl_df. \<not> pos_gain r \<longrightarrow>
           Date r \<notin> (\<Union>df \<in> set (strk_df_lst s). Date ` member ` set df))"
    if d: "distinct (map Date usempl_df)"
  proof
    have "map (Date \<circ> member) (concat (strk_df_lst s)) = map Date (filter pos_gain usempl_df)"
      using mc by (simp flip: map_map)
    then show "distinct (map (Date \<circ> member) (concat (strk_df_lst s)))"
      using d by (simp add: distinct_map_filter)
    from d have inj: "inj_on Date (set usempl_df)" by (simp add: distinct_map)
    show "\<forall>r \<in> set usempl_df. \<not> pos_gain r \<longrightarrow>
           Date r \<notin> (\<Union>df \<in> set (strk_df_lst s). Date ` member ` set df)"
      unfolding un using inj by (auto dest: inj_onD)
  qed
  from s(1) cc un ne ds show ?thesis by blast
qed

theorem positive_gains_partitioned_witness:
  "wf_series example_A \<and> distinct (map Date example_A) \<and>
   (\<exists>s. segment example_A = Inr s \<and> map gain_col (strk_df_lst s) = [[5, 3], [2, 2, 2]] \<and>
      concat (map (map member) (strk_df_lst s)) = filter pos_gain example_A \<and>
      (\<Union>df \<in> set (strk_df_lst s). Date ` member ` set df) =
        Date ` {r \<in> set example_A. pos_gain r} \<and>
      (\<forall>df \<in> set (strk_df_lst s). df \<noteq> [] \<and> (\<forall>r \<in> set df. pos_gain (member r))) \<and>
      distinct (map (Date \<circ> member) (concat (strk_df_lst s))) \<and>
      (\<forall>r \<in> set example_A. \<not> pos_gain r \<longrightarrow>
         Date r \<notin> (\<Union>df \<in> set (strk_df_lst s). Date ` member ` set df)))"
proof -
  have wf: "wf_series example_A"
    by (simp add: example_A_def wf_series_def)
  have d: "distinct (map Date example_A)"
    by (simp add: example_A_def)
  from positive_gains_partitioned [OF wf] d segment_example_A wf show ?thesis
    by auto
qed

lemma pos_gain_val: "pos_gain x \<Longrightarrow> empl_mth_gain x = Some (gain_val x)"
  by (auto simp: pos_gain_def gain_val_def split: option.splits)

text \<open>
  C2. For every series of the loader the loop returns, and in every streak frame every row
  carries the totals of the streak: \<open>strk_mths_tot\<close> is the number of rows of the frame,
  \<open>strk_cum_tot\<close> is the sum of the gains of its rows, \<open>strk_avg_emp_gain\<close> is that sum
  divided by that number; in a frame of one row the average is the gain of the row.
\<close>

theorem streak_totals:
  assumes "wf_series usempl_df"
  shows "\<exists>s. segment usempl_df = Inr s \<and>
     (\<forall>df \<in> set (strk_df_lst s). \<forall>r \<in> set df.
        strk_mths_tot r = Some (length df) \<and>
        strk_cum_tot r = Some (sum_list (gain_col df)) \<and>
        strk_avg_emp_gain r = Some (sum_list (gain_col df) / of_nat (length df)) \<and>
        (length df = 1 \<longrightarrow> strk_avg_emp_gain r = empl_mth_gain (member r)))"
proof -
  from assms obtain s where s: "segment usempl_df = Inr s"
    "strk_df_lst s = map frame_of (pos_runs usempl_df)"
    by (rule segment_runs)
  have "strk_mths_tot r = Some (length df) \<and>
        strk_cum_tot r = Some (sum_list (gain_col df)) \<and>
        strk_avg_emp_gain r = Some (sum_list (gain_col df) / of_nat (length df)) \<and>
        (length df = 1 \<longrightarrow> strk_avg_emp_gain r = empl_mth_gain (member r))"
    if df: "df \<in> set (strk_df_lst s)" and r: "r \<in> set df" for df r
  proof -
    from df obtain run where run: "run \<in> set (pos_runs usempl_df)" "df = frame_of run"
      by (auto simp: s(2))
    have allp: "\<forall>x \<in> set run. pos_gain x"
      using run(1) by (auto intro: pos_runs_pos)
    have gc: "gain_col df = map gain_val run"
      using allp by (simp add: run(2) gain_col_frame_of)
    have len: "length df = length run" by (simp add: run(2))
    have tot: "strk_mths_tot r = Some (length df)"
      "strk_cum_tot r = Some (sum_list (gain_col df))"
      "strk_avg_emp_gain r = Some (sum_list (gain_col df) / of_nat (length df))"
      using frame_of_rows [of r run] r gc len by (simp_all add: run(2))
    have one: "strk_avg_emp_gain r = empl_mth_gain (member r)" if l1: "length df = 1"
    proof -
      from l1 len obtain x where x: "run = [x]" by (cases run) auto
      then have "df = [df ! 0]" using l1 by (cases df) auto
      with r have "r = df ! 0" by (metis empty_iff empty_set set_ConsD)
      then have "member r = x" using frame_of_nth [of 0 run] x run(2) by simp
      moreover have "pos_gain x" using allp x by simp
      ultimately show ?thesis
        using tot(3) gc x l1 by (simp add: pos_gain_val)
    qed
    from tot one show ?thesis by blast
  qed
  with s(1) show ?thesis by blast
qed

theorem streak_totals_witness:
  "wf_series example_A \<and>
   (\<exists>s. segment example_A = Inr s \<and> map gain_col (strk_df_lst s) = [[5, 3], [2, 2, 2]] \<and>
     (\<forall>df \<in> set (strk_df_lst s). \<forall>r \<in> set df.
        strk_mths_tot r = Some (length df) \<and>
        strk_cum_tot r = Some (sum_list (gain_col df)) \<and>
        strk_avg_emp_gain r = Some (sum_list (gain_col df) / of_nat (length df)) \<and>
        (length df = 1 \<longrightarrow> strk_avg_emp_gain r = empl_mth_gain (member r))))"
proof -
  have wf: "wf_series example_A"
    by (simp add: example_A_def wf_series_def)
  from streak_totals [OF wf] segment_example_A wf show ?thesis
    by auto
qed

text \<open>
  C9. For every series of the loader the loop returns, and in every streak frame the row
  at position \<open>k\<close> (from 0) has the running counter \<open>k + 1\<close> and as running sum the sum of
  the gains of the rows up to it; the running values of the last row are the totals
  \<open>strk_mths_tot\<close> and \<open>strk_cum_tot\<close> written into the rows.
\<close>

theorem running_columns:
  assumes "wf_series usempl_df"
  shows "\<exists>s. segment usempl_df = Inr s \<and>
     (\<forall>df \<in> set (strk_df_lst s).
        (\<forall>k < length df.
           col_strk_mths (df ! k) = k + 1 \<and>
           col_strk_cum (df ! k) = sum_list (take (k + 1) (gain_col df))) \<and>
        (\<forall>r \<in> set df.
           strk_mths_tot r = Some (col_strk_mths (last df)) \<and>
           strk_cum_tot r = Some (col_strk_cum (last df))))"
proof -
  from assms obtain s where s: "segment usempl_df = Inr s"
    "strk_df_lst s = map frame_of (pos_runs usempl_df)"
    by (rule segment_runs)
  have "(\<forall>k < length df.
           col_strk_mths (df ! k) = k + 1 \<and>
           col_strk_cum (df ! k) = sum_list (take (k + 1) (gain_col df))) \<and>
        (\<forall>r \<in> set df.
           strk_mths_tot r = Some (col_strk_mths (last df)) \<and>
           strk_cum_tot r = Some (col_strk_cum (last df)))"
    if df: "df \<in> set (strk_df_lst s)" for df
  proof -
    from df obtain run where run: "run \<in> set (pos_runs usempl_df)" "df = frame_of run"
      by (auto simp: s(2))
    have allp: "\<forall>x \<in> set run. pos_gain x"
      using run(1) by (auto intro: pos_runs_pos)
    have ne: "run \<noteq> []" using run(1) by (rule pos_runs_ne)
    have gc: "gain_col df = map gain_val run"
      using allp by (simp add: run(2) gain_col_frame_of)
    have len: "length df = length run" by (simp add: run(2))
    have nth: "col_strk_mths (df ! k) = k + 1 \<and>
           col_strk_cum (df ! k) = sum_list (take (k + 1) (gain_col df))"
      if "k < length df" for k
      using frame_of_nth [of k run] that len gc by (simp add: run(2) take_map)
    have dfne: "df \<noteq> []" using ne len by auto
    then have "last df = df ! (length df - 1)" by (rule last_conv_nth)
    moreover have "length df - 1 < length df" using dfne by simp
    moreover have "length (gain_col df) = length df" by (simp add: gc len)
    ultimately have lst: "col_strk_mths (last df) = length df"
      "col_strk_cum (last df) = sum_list (gain_col df)"
      using nth [of "length df - 1"] dfne by simp_all
    have "strk_mths_tot r = Some (col_strk_mths (last df)) \<and>
           strk_cum_tot r = Some (col_strk_cum (last df))" if "r \<in> set df" for r
      using frame_of_rows [of r run] that lst gc len by (simp add: run(2))
    with nth show ?thesis by blast
  qed
  with s(1) show ?thesis by blast
qed

theorem running_columns_witness:
  "wf_series example_A \<and>
   (\<exists>s. segment example_A = Inr s \<and> map gain_col (strk_df_lst s) = [[5, 3], [2, 2, 2]] \<and>
     (\<forall>df \<in> set (strk_df_lst s).
        (\<forall>k < length df.
           col_strk_mths (df ! k) = k + 1 \<and>
           col_strk_cum (df ! k) = sum_list (take (k + 1) (gain_col df))) \<and>
        (\<forall>r \<in> set df.
           strk_mths_tot r = Some (col_strk_mths (last df)) \<and>
           strk_cum_tot r = Some (col_strk_cum (last df)))))"
proof -
  have wf: "wf_series example_A"
    by (simp add: example_A_def wf_series_def)
  from running_columns [OF wf] segment_example_A wf show ?thesis
    by auto
qed

text \<open>
  C3. The series with the gains 5, 3, -1, 2, 2, 2 after its first month gives two streaks,
  in this order: the gains 5, 3 with length 2, total 8 and average 4, and the gains
  2, 2, 2 with length 3, total 6 and average 2. The series with the gains -1, -1, 1 gives
  one streak: the gain 1 with length 1, total 1 and average 1.
\<close>

theorem scenario_two_streaks_and_one:
  "(\<exists>s. segment example_A = Inr s \<and>
      map gain_col (strk_df_lst s) = [[5, 3], [2, 2, 2]] \<and>
      map (map strk_mths_tot) (strk_df_lst s) = [[Some 2, Some 2], [Some 3, Some 3, Some 3]] \<and>
      map (map strk_cum_tot) (strk_df_lst s) = [[Some 8, Some 8], [Some 6, Some 6, Some 6]] \<and>
      map (map strk_avg_emp_gain) (strk_df_lst s) =
        [[Some 4, Some 4], [Some 2, Some 2, Some 2]]) \<and>
   (\<exists>s. segment example_B = Inr s \<and>
      map gain_col (strk_df_lst s) = [[1]] \<and>
      map (map strk_mths_tot) (strk_df_lst s) = [[Some 1]] \<and>
      map (map strk_cum_tot) (strk_df_lst s) = [[Some 1]] \<and>
      map (map strk_avg_emp_gain) (strk_df_lst s) = [[Some 1]])"
proof
  show "\<exists>s. segment example_A = Inr s \<and>
      map gain_col (strk_df_lst s) = [[5, 3], [2, 2, 2]] \<and>
      map (map strk_mths_tot) (strk_df_lst s) = [[Some 2, Some 2], [Some 3, Some 3, Some 3]] \<and>
      map (map strk_cum_tot) (strk_df_lst s) = [[Some 8, Some 8], [Some 6, Some 6, Some 6]] \<and>
      map (map strk_avg_emp_gain) (strk_df_lst s) =
        [[Some 4, Some 4], [Some 2, Some 2, Some 2]]"
    by (simp add: example_A_def segment_eval)
  show "\<exists>s. segment example_B = Inr s \<and>
      map gain_col (strk_df_lst s) = [[1]] \<and>
      map (map strk_mths_tot) (strk_df_lst s) = [[Some 1]] \<and>
      map (map strk_cum_tot) (strk_df_lst s) = [[Some 1]] \<and>
      map (map strk_avg_emp_gain) (strk_df_lst s) = [[Some 1]]"
    by (simp add: example_B_def segment_eval)
qed

lemma collected_collection: "collected cl s \<Longrightarrow> collected cl t \<Longrightarrow> collection s = collection t"
  by (simp add: collected_def collection_def)

lemma wf_series_snoc:
  "wf_series rows \<Longrightarrow> rows \<noteq> [] \<Longrightarrow> empl_mth_gain r = Some g \<Longrightarrow> wf_series (rows @ [r])"
  by (cases rows) (auto simp: wf_series_def)

lemma pos_runs_snoc_drop:
  assumes "rows \<noteq> []" and "pos_gain (last rows)" and "\<not> pos_gain r"
  shows "pos_runs (rows @ [r]) = pos_runs rows"
    and "pos_runs rows = fst (seg_prefix rows) @ [snd (seg_prefix rows)]"
    and "snd (seg_prefix rows) \<noteq> []"
proof -
  show op: "snd (seg_prefix rows) \<noteq> []"
    using assms(1,2) by (simp add: seg_open_iff)
  then show "pos_runs rows = fst (seg_prefix rows) @ [snd (seg_prefix rows)]"
    by (simp add: pos_runs_def)
  then show "pos_runs (rows @ [r]) = pos_runs rows"
    using op assms(3) by (simp add: pos_runs_def seg_prefix_snoc seg_step_def)
qed

lemma last_frame_of:
  assumes "run \<noteq> []"
  shows "member (last (frame_of run)) = last run"
proof -
  from assms have "frame_of run \<noteq> []" by simp
  then have "last (map member (frame_of run)) = member (last (frame_of run))"
    by (rule last_map)
  then show ?thesis by simp
qed

lemma segment_example_C:
  "\<exists>s. segment example_C = Inr s \<and> map gain_col (strk_df_lst s) = [[1, 1, 1]] \<and>
     map (map strk_mths_tot) (strk_df_lst s) = [[Some 3, Some 3, Some 3]] \<and>
     map (map strk_cum_tot) (strk_df_lst s) = [[Some 3, Some 3, Some 3]] \<and>
     map (map strk_avg_emp_gain) (strk_df_lst s) = [[Some 1, Some 1, Some 1]]"
  by (simp add: example_C_def segment_eval)

text \<open>
  C5. When the last month of a series of the loader has a positive gain, the loop closes
  the open streak at that month, and the Streak Collection is the one that the loop builds
  when a month without a positive gain follows: the same frames with the same totals, the
  same labels and the same extrema. The last member of the last streak is the last month
  of the series. The series with the gains 1, 1, 1 gives one streak of length 3 with the
  total 3.
\<close>

theorem open_streak_closed_at_end:
  assumes "wf_series usempl_df" and "usempl_df \<noteq> []" and "pos_gain (last usempl_df)"
    and "empl_mth_gain r = Some g" and "g \<le> 0"
  shows "(\<exists>s t. segment usempl_df = Inr s \<and> segment (usempl_df @ [r]) = Inr t \<and>
            collection s = collection t \<and> strk_num s = strk_num t \<and>
            strk_df_lst s \<noteq> [] \<and>
            member (last (last (strk_df_lst s))) = last usempl_df) \<and>
         (\<exists>s. segment example_C = Inr s \<and> map gain_col (strk_df_lst s) = [[1, 1, 1]] \<and>
            map (map strk_mths_tot) (strk_df_lst s) = [[Some 3, Some 3, Some 3]] \<and>
            map (map strk_cum_tot) (strk_df_lst s) = [[Some 3, Some 3, Some 3]] \<and>
            map (map strk_avg_emp_gain) (strk_df_lst s) = [[Some 1, Some 1, Some 1]])"
proof
  have np: "\<not> pos_gain r" using assms(4,5) by (simp add: pos_gain_def)
  note pr = pos_runs_snoc_drop [OF assms(2,3) np]
  from assms(1) obtain s where s: "segment usempl_df = Inr s"
    "collected (pos_runs usempl_df) s" "strk_num s = length (pos_runs usempl_df)"
    "strk_df_lst s = map frame_of (pos_runs usempl_df)"
    by (rule segment_runs)
  have "wf_series (usempl_df @ [r])"
    using assms(1,2,4) by (rule wf_series_snoc)
  then obtain t where t: "segment (usempl_df @ [r]) = Inr t"
    "collected (pos_runs (usempl_df @ [r])) t"
    "strk_num t = length (pos_runs (usempl_df @ [r]))"
    by (rule segment_runs)
  have "collected (pos_runs usempl_df) t"
    using t(2) by (simp add: pr(1))
  with s(2) have c: "collection s = collection t"
    by (rule collected_collection)
  have n: "strk_num s = strk_num t"
    using s(3) t(3) by (simp add: pr(1))
  have ne: "strk_df_lst s \<noteq> []"
    using pr(2) by (simp add: s(4))
  have "last (strk_df_lst s) = frame_of (snd (seg_prefix usempl_df))"
    using pr(2) by (simp add: s(4))
  then have "member (last (last (strk_df_lst s))) = last (snd (seg_prefix usempl_df))"
    using pr(3) by (simp add: last_frame_of)
  then have l: "member (last (last (strk_df_lst s))) = last usempl_df"
    using pr(3) by (simp add: seg_open_last)
  show "\<exists>s t. segment usempl_df = Inr s \<and> segment (usempl_df @ [r]) = Inr t \<and>
            collection s = collection t \<and> strk_num s = strk_num t \<and>
            strk_df_lst s \<noteq> [] \<and>
            member (last (last (strk_df_lst s))) = last usempl_df"
    by (rule exI [of _ s], rule exI [of _ t]) (simp add: s(1) t(1) c n ne l)
  show "\<exists>s. segment example_C = Inr s \<and> map gain_col (strk_df_lst s) = [[1, 1, 1]] \<and>
            map (map strk_mths_tot) (strk_df_lst s) = [[Some 3, Some 3, Some 3]] \<and>
            map (map strk_cum_tot) (strk_df_lst s) = [[Some 3, Some 3, Some 3]] \<and>
            map (map strk_avg_emp_gain) (strk_df_lst s) = [[Some 1, Some 1, Some 1]]"
    by (rule segment_example_C)
qed

theorem open_streak_closed_at_end_witness:
  "wf_series example_C \<and> example_C \<noteq> [] \<and> pos_gain (last example_C) \<and>
   (\<exists>s t. segment example_C = Inr s \<and>
      segment (example_C @
        [\<lparr>Date = \<lparr>year = 2020, month = 5, day = 1\<rparr>, PAYEMS = 103,
          empl_mth_gain = Some 0\<rparr>]) = Inr t \<and>
      collection s = collection t \<and> strk_num s = strk_num t \<and> strk_df_lst s \<noteq> [] \<and>
      member (last (last (strk_df_lst s))) = last example_C)"
proof -
  have h: "wf_series example_C" "example_C \<noteq> []" "pos_gain (last example_C)"
    by (simp_all add: example_C_def wf_series_def pos_gain_def)
  have g: "empl_mth_gain \<lparr>Date = \<lparr>year = 2020, month = 5, day = 1\<rparr>, PAYEMS = 103,
          empl_mth_gain = Some 0\<rparr> = Some 0" "(0::rat) \<le> 0"
    by simp_all
  from open_streak_closed_at_end [OF h g] have
    "\<exists>s t. segment example_C = Inr s \<and>
      segment (example_C @
        [\<lparr>Date = \<lparr>year = 2020, month = 5, day = 1\<rparr>, PAYEMS = 103,
          empl_mth_gain = Some 0\<rparr>]) = Inr t \<and>
      collection s = collection t \<and> strk_num s = strk_num t \<and> strk_df_lst s \<noteq> [] \<and>
      member (last (last (strk_df_lst s))) = last example_C"
    by (rule conjunct1)
  with h show ?thesis
    by (intro conjI)
qed

lemma pos_runs_none: "\<forall>r \<in> set rows. \<not> pos_gain r \<Longrightarrow> pos_runs rows = []"
proof -
  assume a: "\<forall>r \<in> set rows. \<not> pos_gain r"
  then have "filter pos_gain rows = []" by (simp add: filter_empty_conv)
  then have "concat (pos_runs rows) = []" by (simp add: pos_runs_concat)
  then have "\<forall>r \<in> set (pos_runs rows). r = []" by simp
  then show "pos_runs rows = []"
    using pos_runs_ne [of _ rows] by (cases "pos_runs rows") auto
qed

lemma wf_short_no_gain: "wf_series rows \<Longrightarrow> length rows \<le> 1 \<Longrightarrow> \<forall>r \<in> set rows. \<not> pos_gain r"
  by (cases rows) (auto simp: wf_series_def pos_gain_def)

text \<open>
  C6, as the code has it. For a series of the loader without a month of positive gain, so
  for every series of at most one month, the segmentation loop returns and the Streak
  Collection is empty: no frame, no label, no extrema, and \<open>strk_num\<close> is zero.
\<close>

theorem no_gain_empty_collection:
  assumes "wf_series usempl_df"
    and "(\<forall>r \<in> set usempl_df. \<not> pos_gain r) \<or> length usempl_df \<le> 1"
  shows "\<exists>s. segment usempl_df = Inr s \<and>
           collection s = ([], [], [], ([], []), ([], []), ([], [])) \<and> strk_num s = 0"
proof -
  from assms have "\<forall>r \<in> set usempl_df. \<not> pos_gain r"
    using wf_short_no_gain by blast
  then have e: "pos_runs usempl_df = []" by (rule pos_runs_none)
  from assms(1) obtain s where s: "segment usempl_df = Inr s"
    "collected (pos_runs usempl_df) s" "strk_num s = length (pos_runs usempl_df)"
    by (rule segment_runs)
  then show ?thesis
    by (simp add: e collected_def collection_def)
qed

theorem no_gain_empty_collection_witness:
  "wf_series (with_gain [(\<lparr>year = 2020, month = 1, day = 1\<rparr>, 100),
                          (\<lparr>year = 2020, month = 2, day = 1\<rparr>, 99)]) \<and>
   filter pos_gain (with_gain [(\<lparr>year = 2020, month = 1, day = 1\<rparr>, 100),
                          (\<lparr>year = 2020, month = 2, day = 1\<rparr>, 99)]) = [] \<and>
   (\<exists>s. segment (with_gain [(\<lparr>year = 2020, month = 1, day = 1\<rparr>, 100),
                          (\<lparr>year = 2020, month = 2, day = 1\<rparr>, 99)]) = Inr s \<and>
        collection s = ([], [], [], ([], []), ([], []), ([], [])) \<and> strk_num s = 0)"
proof -
  let ?rows = "with_gain [(\<lparr>year = 2020, month = 1, day = 1\<rparr>, 100),
                          (\<lparr>year = 2020, month = 2, day = 1\<rparr>, 99)]"
  have h: "wf_series ?rows" "filter pos_gain ?rows = []"
    by (simp_all add: wf_series_def pos_gain_def)
  from h(2) have "\<forall>r \<in> set ?rows. \<not> pos_gain r"
    by (simp only: filter_empty_conv)
  then have h2: "(\<forall>r \<in> set ?rows. \<not> pos_gain r) \<or> length ?rows \<le> 1" ..
  from no_gain_empty_collection [OF h(1) h2] h show ?thesis
    by (intro conjI)
qed

text \<open>
  The claim C6 as the specification states it fails: on the frame without rows line 225
  raises \<open>KeyError\<close>, and on a series of one month, and on one of two months without a
  gain, the minimum of the empty list at line 329 raises \<open>ValueError\<close>.
\<close>

theorem degenerate_input_raises:
  "usempl_streaks [] = Inl KeyError \<and>
   usempl_streaks (with_gain [(\<lparr>year = 2020, month = 1, day = 1\<rparr>, 100)]) = Inl ValueError \<and>
   usempl_streaks (with_gain [(\<lparr>year = 2020, month = 1, day = 1\<rparr>, 100),
                               (\<lparr>year = 2020, month = 2, day = 1\<rparr>, 99)]) = Inl ValueError"
  by (simp add: usempl_streaks_def bind_err_def py_min_def segment_eval)

lemma append_extrema_fail:
  "df = [] \<or> gain_col df = [] \<Longrightarrow> append_extrema df s = Inl EmptyFrame"
  by (auto simp add: append_extrema_def col_min_def col_max_def split: option.splits list.splits)

lemma append_extrema_same:
  assumes "collection s = collection t" and "strk_num s = strk_num t"
    and "strk_mths s = strk_mths t" and "strk_cum s = strk_cum t"
    and "strk_mths s > 0 \<longrightarrow> strk_df s = strk_df t \<and> strk_start_mth_str s = strk_start_mth_str t"
  shows "rel_sum (=) same_visible (append_extrema df s) (append_extrema df t)"
proof (cases "df = [] \<or> gain_col df = []")
  case True
  then show ?thesis by (simp add: append_extrema_fail)
next
  case False
  then have ne: "df \<noteq> []" "gain_col df \<noteq> []" by simp_all
  show ?thesis
    using assms by (simp add: append_extrema_ok [OF ne] same_visible_def collection_def)
qed

lemma add_member_same:
  assumes "same_visible s t"
  shows "same_visible (add_member r g (open_streak i d s)) (add_member r g (open_streak i d t))"
    and "strk_df (add_member r g (open_streak i d s)) = strk_df (add_member r g (open_streak i d t))"
    and "strk_start_mth_str (add_member r g (open_streak i d s)) =
         strk_start_mth_str (add_member r g (open_streak i d t))"
    and "strk_mths (add_member r g (open_streak i d s)) > 0"
  using assms
  by (auto simp add: same_visible_def collection_def add_member_def open_streak_def Let_def)

lemma close_on_drop_same:
  assumes "same_visible s t"
  shows "rel_sum (=) same_visible (close_on_drop d s) (close_on_drop d t)"
proof (cases "strk_mths s = 0")
  case True
  with assms show ?thesis by (simp add: close_on_drop_def same_visible_def)
next
  case False
  with assms have eq: "strk_mths t = strk_mths s" "strk_cum t = strk_cum s"
    "strk_df t = strk_df s" "strk_start_mth_str t = strk_start_mth_str s"
    by (simp_all add: same_visible_def)
  show ?thesis
    using False assms unfolding close_on_drop_def Let_def eq
    by (simp, intro append_extrema_same) (simp_all add: same_visible_def collection_def)
qed

lemma close_at_end_same:
  assumes "same_visible s t" and "strk_mths s > 0"
  shows "rel_sum (=) same_visible (close_at_end d s) (close_at_end d t)"
proof -
  from assms have eq: "strk_mths t = strk_mths s" "strk_cum t = strk_cum s"
    "strk_df t = strk_df s" "strk_start_mth_str t = strk_start_mth_str s"
    by (simp_all add: same_visible_def)
  show ?thesis
    using assms unfolding close_at_end_def Let_def eq
    by (simp, intro append_extrema_same) (simp_all add: same_visible_def collection_def)
qed

lemma loop_body_same:
  assumes "same_visible s t"
  shows "rel_sum (=) same_visible (loop_body rows i s) (loop_body rows i t)"
proof (cases "empl_mth_gain (rows ! i)")
  case None
  with assms show ?thesis by (simp add: loop_body_def)
next
  case (Some g)
  show ?thesis
  proof (cases "g > 0")
    case True
    note am = add_member_same [OF assms, of "rows ! i" g i "Date (rows ! i)"]
    have unf: "loop_body rows i u =
        (if i = length rows - 1
         then close_at_end (Date (rows ! i))
                (add_member (rows ! i) g (open_streak i (Date (rows ! i)) u))
         else Inr (add_member (rows ! i) g (open_streak i (Date (rows ! i)) u)))" for u
      unfolding loop_body_def Let_def using Some True by simp
    show ?thesis
      unfolding unf
      using am(1) close_at_end_same [OF am(1) am(4), of "Date (rows ! i)"]
      by (cases "i = length rows - 1") simp_all
  next
    case False
    with Some assms close_on_drop_same [OF assms] show ?thesis
      by (simp add: loop_body_def split: option.splits)
  qed
qed

lemma for_range_same:
  "same_visible s t \<Longrightarrow>
     rel_sum (=) same_visible (for_range (loop_body rows) is s) (for_range (loop_body rows) is t)"
proof (induction "is" arbitrary: s t)
  case Nil
  then show ?case by simp
next
  case (Cons i "is")
  from loop_body_same [OF Cons.prems, of rows i] show ?case
    by (cases "loop_body rows i s"; cases "loop_body rows i t") (simp_all add: Cons.IH)
qed

lemma init_locals_same: "same_visible (init_locals s1) (init_locals s2)"
  by (simp add: same_visible_def collection_def init_locals_def)

text \<open>
  C7. The Streak Collection that the segmentation builds for a series does not depend on
  what the local variables hold when it starts: lines 232 to 243 reset the lists and the
  counters, and the loop sets \<open>j\<close>, \<open>strk_df\<close> and \<open>strk_start_mth_str\<close> before it reads
  them. So a second run on the same series, whatever the first run has left behind, gives
  the same frames in the same order with the same labels, totals and extrema, or the same
  error. This holds for every series, of the loader's shape or not.
\<close>

theorem segmentation_repeatable:
  "segmentation s1 usempl_df = segmentation s2 usempl_df"
proof -
  have "rel_sum (=) same_visible (segment_from s1 usempl_df) (segment_from s2 usempl_df)"
    unfolding segment_from_def by (rule for_range_same [OF init_locals_same])
  then show ?thesis
    by (cases "segment_from s1 usempl_df"; cases "segment_from s2 usempl_df")
       (simp_all add: segmentation_def same_visible_def)
qed

lemmas chart_eval =
  usempl_streaks_def bind_err_def py_min_def py_max_def draw_streaks_def draw_body_def
  draw_highlighted_def draw_plain_def py_nth_def Viridis8_getitem_def

lemma usempl_streaks_Inr:
  assumes "usempl_streaks rows = Inr c"
  obtains s v where "rows \<noteq> []" "segment rows = Inr s"
    "py_min (min_cum_val_lst s) = Inr (min_cum_val c)"
    "py_max (max_cum_val_lst s) = Inr (max_cum_val c)"
    "py_min (min_mth_val_lst s) = Inr (min_mth_val c)"
    "py_max (max_mth_val_lst s) = Inr (max_mth_val c)"
    "draw_streaks s = Inr v" "streaks c = strk_df_lst s" "labels c = strk_label_lst s"
    "renderers c = fig_lst v" "legend_items c = label_items_lst v"
  using assms
  by (auto simp add: usempl_streaks_def bind_err_def Let_def split: if_splits sum.splits)

lemma py_min_Inr: "py_min xs = Inr m \<Longrightarrow> xs \<noteq> [] \<and> m = Min (set xs)"
  by (cases xs) (auto simp add: py_min_def Min.set_eq_fold [symmetric] simp del: set_simps)

lemma py_max_Inr: "py_max xs = Inr m \<Longrightarrow> xs \<noteq> [] \<and> m = Max (set xs)"
  by (cases xs) (auto simp add: py_max_def Max.set_eq_fold [symmetric] simp del: set_simps)

lemma pos_gain_val_pos: "pos_gain x \<Longrightarrow> gain_val x > 0"
  by (auto simp: pos_gain_def gain_val_def split: option.splits)

lemma sum_gains_nonneg: "\<forall>x \<in> set run. pos_gain x \<Longrightarrow> 0 \<le> sum_list (map gain_val run)"
  by (induction run) (auto dest: pos_gain_val_pos intro: add_nonneg_nonneg less_imp_le)

lemma running_cum_bounds:
  "\<forall>x \<in> set run. pos_gain x \<Longrightarrow> r \<in> set (running m c run) \<Longrightarrow>
     c + gain_val (hd run) \<le> col_strk_cum r \<and>
     col_strk_cum r \<le> c + sum_list (map gain_val run)"
proof (induction run arbitrary: m c)
  case Nil
  then show ?case by simp
next
  case (Cons x xs)
  have gx: "gain_val x > 0" using Cons.prems(1) by (simp add: pos_gain_val_pos)
  have sx: "0 \<le> sum_list (map gain_val xs)" using Cons.prems(1) by (simp add: sum_gains_nonneg)
  from Cons.prems(2) consider
    "col_strk_cum r = c + gain_val x" | "r \<in> set (running (m + 1) (c + gain_val x) xs)"
    by auto
  then show ?case
  proof cases
    case 1
    with sx show ?thesis by simp
  next
    case 2
    then have "xs \<noteq> []" by auto
    then have "gain_val (hd xs) > 0" using Cons.prems(1) by (simp add: pos_gain_val_pos)
    with Cons.IH [OF _ 2] Cons.prems(1) show ?thesis by (simp add: add.assoc)
  qed
qed

lemma running_mths_bounds:
  "r \<in> set (running m c run) \<Longrightarrow> m + 1 \<le> col_strk_mths r \<and> col_strk_mths r \<le> m + length run"
proof (induction run arbitrary: m c)
  case Nil
  then show ?case by simp
next
  case (Cons x xs)
  from Cons.prems consider
    "col_strk_mths r = m + 1" | "r \<in> set (running (m + 1) (c + gain_val x) xs)"
    by auto
  then show ?case
  proof cases
    case 1
    then show ?thesis by simp
  next
    case 2
    from Cons.IH [OF 2] show ?thesis by simp
  qed
qed

lemma running_extrema:
  assumes "run \<noteq> []" and "\<forall>x \<in> set run. pos_gain x"
  shows "Min (set (map col_strk_cum (running 0 0 run))) = gain_val (hd run)"
    and "Max (set (map col_strk_cum (running 0 0 run))) = sum_list (map gain_val run)"
    and "Min (set (map col_strk_mths (running 0 0 run))) = 1"
    and "Max (set (map col_strk_mths (running 0 0 run))) = length run"
proof -
  let ?df = "running 0 0 run"
  have len: "0 < length run" "length run - 1 < length run" using assms(1) by simp_all
  have first: "?df ! 0 \<in> set ?df" and last: "?df ! (length run - 1) \<in> set ?df"
    using len by simp_all
  have f: "col_strk_cum (?df ! 0) = gain_val (hd run)" "col_strk_mths (?df ! 0) = 1"
    using len(1) assms(1) by (simp_all add: running_nth take_Suc hd_conv_nth)
  have l: "col_strk_cum (?df ! (length run - 1)) = sum_list (map gain_val run)"
    "col_strk_mths (?df ! (length run - 1)) = length run"
    using len by (simp_all add: running_nth)
  show "Min (set (map col_strk_cum ?df)) = gain_val (hd run)"
  proof (rule Min_eqI)
    show "finite (set (map col_strk_cum ?df))" by simp
    show "gain_val (hd run) \<in> set (map col_strk_cum ?df)"
      using first f(1) by (metis image_eqI set_map)
    fix y assume "y \<in> set (map col_strk_cum ?df)"
    then show "gain_val (hd run) \<le> y"
      using running_cum_bounds [OF assms(2), of _ 0 0] by auto
  qed
  show "Max (set (map col_strk_cum ?df)) = sum_list (map gain_val run)"
  proof (rule Max_eqI)
    show "finite (set (map col_strk_cum ?df))" by simp
    show "sum_list (map gain_val run) \<in> set (map col_strk_cum ?df)"
      using last l(1) by (metis image_eqI set_map)
    fix y assume "y \<in> set (map col_strk_cum ?df)"
    then show "y \<le> sum_list (map gain_val run)"
      using running_cum_bounds [OF assms(2), of _ 0 0] by auto
  qed
  show "Min (set (map col_strk_mths ?df)) = 1"
  proof (rule Min_eqI)
    show "finite (set (map col_strk_mths ?df))" by simp
    show "1 \<in> set (map col_strk_mths ?df)"
      using first f(2) by (metis image_eqI set_map)
    fix y assume "y \<in> set (map col_strk_mths ?df)"
    then show "1 \<le> y"
      using running_mths_bounds [of _ 0 0 run] by auto
  qed
  show "Max (set (map col_strk_mths ?df)) = length run"
  proof (rule Max_eqI)
    show "finite (set (map col_strk_mths ?df))" by simp
    show "length run \<in> set (map col_strk_mths ?df)"
      using last l(2) by (metis image_eqI set_map)
    fix y assume "y \<in> set (map col_strk_mths ?df)"
    then show "y \<le> length run"
      using running_mths_bounds [of _ 0 0 run] by auto
  qed
qed

text \<open>The per-streak extrema of the locals, for a series of the loader.\<close>

lemma collected_extrema:
  assumes "collected (pos_runs rows) s"
  shows "min_cum_val_lst s = map (\<lambda>df. hd (gain_col df)) (strk_df_lst s)"
    and "max_cum_val_lst s = map (\<lambda>df. sum_list (gain_col df)) (strk_df_lst s)"
    and "min_mth_val_lst s = map (\<lambda>df. 1) (strk_df_lst s)"
    and "max_mth_val_lst s = map length (strk_df_lst s)"
    and "min_gain_val_lst s = map (\<lambda>df. Min (set (gain_col df))) (strk_df_lst s)"
    and "max_gain_val_lst s = map (\<lambda>df. Max (set (gain_col df))) (strk_df_lst s)"
proof -
  have run: "run \<noteq> [] \<and> (\<forall>x \<in> set run. pos_gain x) \<and>
      gain_col (frame_of run) = map gain_val run"
    if "run \<in> set (pos_runs rows)" for run
    using that pos_runs_ne [of run rows] pos_runs_pos [of run rows]
    by (simp add: gain_col_frame_of)
  from assms have c: "strk_df_lst s = map frame_of (pos_runs rows)"
    "min_cum_val_lst s = map (\<lambda>r. Min (set (map col_strk_cum (running 0 0 r)))) (pos_runs rows)"
    "max_cum_val_lst s = map (\<lambda>r. Max (set (map col_strk_cum (running 0 0 r)))) (pos_runs rows)"
    "min_mth_val_lst s = map (\<lambda>r. Min (set (map col_strk_mths (running 0 0 r)))) (pos_runs rows)"
    "max_mth_val_lst s = map (\<lambda>r. Max (set (map col_strk_mths (running 0 0 r)))) (pos_runs rows)"
    "min_gain_val_lst s = map (\<lambda>r. Min (set (map gain_val r))) (pos_runs rows)"
    "max_gain_val_lst s = map (\<lambda>r. Max (set (map gain_val r))) (pos_runs rows)"
    by (simp_all add: collected_def)
  show "min_cum_val_lst s = map (\<lambda>df. hd (gain_col df)) (strk_df_lst s)"
    unfolding c using run by (simp add: running_extrema hd_map del: set_map)
  show "max_cum_val_lst s = map (\<lambda>df. sum_list (gain_col df)) (strk_df_lst s)"
    unfolding c using run by (simp add: running_extrema del: set_map)
  show "min_mth_val_lst s = map (\<lambda>df. 1) (strk_df_lst s)"
    unfolding c using run by (simp add: running_extrema del: set_map)
  show "max_mth_val_lst s = map length (strk_df_lst s)"
    unfolding c using run by (simp add: running_extrema del: set_map)
  show "min_gain_val_lst s = map (\<lambda>df. Min (set (gain_col df))) (strk_df_lst s)"
    unfolding c using run by (simp del: set_map)
  show "max_gain_val_lst s = map (\<lambda>df. Max (set (gain_col df))) (strk_df_lst s)"
    unfolding c using run by (simp del: set_map)
qed

lemma usempl_streaks_example_A:
  "map_sum id global_extrema (usempl_streaks example_A) = Inr (2, 8, 1, 3)"
  by (simp add: example_A_def chart_eval segment_eval global_extrema_def)

text \<open>
  C4, as the code has it. When \<open>usempl_streaks\<close> returns a chart for a series of the
  loader, there is at least one streak, and lines 329 to 332 have taken the extrema of the
  running columns over all rows of all streaks: \<open>max_cum_val\<close> is the largest cumulative
  gain of a streak and \<open>max_mth_val\<close> the largest length of a streak, but \<open>min_cum_val\<close>
  is the smallest gain of a first month of a streak and \<open>min_mth_val\<close> is 1. The smallest
  and the largest monthly gain are kept per streak, in \<open>min_gain_val_lst\<close> and
  \<open>max_gain_val_lst\<close>; no extremum is taken of these lists. For the gains
  5, 3, -1, 2, 2, 2 the four values are 2, 8, 1 and 3.
\<close>

theorem global_extrema_of_running_columns:
  assumes "wf_series usempl_df" and "usempl_streaks usempl_df = Inr c"
  shows "streaks c \<noteq> [] \<and> (\<forall>df \<in> set (streaks c). df \<noteq> []) \<and>
     max_cum_val c = Max (set (map (\<lambda>df. sum_list (gain_col df)) (streaks c))) \<and>
     max_mth_val c = Max (set (map length (streaks c))) \<and>
     min_cum_val c = Min (set (map (\<lambda>df. hd (gain_col df)) (streaks c))) \<and>
     min_mth_val c = 1 \<and>
     (\<exists>s. segment usempl_df = Inr s \<and>
        min_gain_val_lst s = map (\<lambda>df. Min (set (gain_col df))) (streaks c) \<and>
        max_gain_val_lst s = map (\<lambda>df. Max (set (gain_col df))) (streaks c)) \<and>
     map_sum id global_extrema (usempl_streaks example_A) = Inr (2, 8, 1, 3)"
proof -
  from assms(2) obtain s v where sv: "segment usempl_df = Inr s"
    "py_min (min_cum_val_lst s) = Inr (min_cum_val c)"
    "py_max (max_cum_val_lst s) = Inr (max_cum_val c)"
    "py_min (min_mth_val_lst s) = Inr (min_mth_val c)"
    "py_max (max_mth_val_lst s) = Inr (max_mth_val c)"
    "streaks c = strk_df_lst s"
    by (rule usempl_streaks_Inr)
  from assms(1) obtain s' where s': "segment usempl_df = Inr s'"
    "collected (pos_runs usempl_df) s'" "strk_df_lst s' = map frame_of (pos_runs usempl_df)"
    by (rule segment_runs)
  with sv(1) have col: "collected (pos_runs usempl_df) s"
    and fr: "strk_df_lst s = map frame_of (pos_runs usempl_df)" by simp_all
  note ex = collected_extrema [OF col]
  have ne: "streaks c \<noteq> []"
    using py_min_Inr [OF sv(2)] by (simp add: ex(1) sv(6))
  have dfne: "\<forall>df \<in> set (streaks c). df \<noteq> []"
    using pos_runs_ne [of _ usempl_df] by (auto simp add: sv(6) fr)
  have "set (map (\<lambda>df. 1::nat) (streaks c)) = {1}"
    using ne by (cases "streaks c") auto
  then have m1: "min_mth_val c = 1"
    using py_min_Inr [OF sv(4)] by (simp add: ex(3) sv(6) del: set_map)
  have mx: "max_cum_val c = Max (set (map (\<lambda>df. sum_list (gain_col df)) (streaks c)))"
    using py_max_Inr [OF sv(3)] by (simp add: ex(2) sv(6) del: set_map)
  have ml: "max_mth_val c = Max (set (map length (streaks c)))"
    using py_max_Inr [OF sv(5)] by (simp add: ex(4) sv(6) del: set_map)
  have mn: "min_cum_val c = Min (set (map (\<lambda>df. hd (gain_col df)) (streaks c)))"
    using py_min_Inr [OF sv(2)] by (simp add: ex(1) sv(6) del: set_map)
  have g: "\<exists>s. segment usempl_df = Inr s \<and>
        min_gain_val_lst s = map (\<lambda>df. Min (set (gain_col df))) (streaks c) \<and>
        max_gain_val_lst s = map (\<lambda>df. Max (set (gain_col df))) (streaks c)"
    using sv(1) ex(5,6) by (simp add: sv(6))
  from ne dfne mx ml mn m1 g usempl_streaks_example_A show ?thesis
    by (intro conjI)
qed

theorem global_extrema_of_running_columns_witness:
  "wf_series example_A \<and>
   (\<exists>c. usempl_streaks example_A = Inr c \<and>
      streaks c \<noteq> [] \<and> (\<forall>df \<in> set (streaks c). df \<noteq> []) \<and>
      max_cum_val c = Max (set (map (\<lambda>df. sum_list (gain_col df)) (streaks c))) \<and>
      max_mth_val c = Max (set (map length (streaks c))) \<and>
      min_cum_val c = Min (set (map (\<lambda>df. hd (gain_col df)) (streaks c))) \<and>
      min_mth_val c = 1)"
proof -
  have wf: "wf_series example_A"
    by (simp add: example_A_def wf_series_def)
  have "\<exists>c. usempl_streaks example_A = Inr c"
    by (simp add: example_A_def chart_eval segment_eval)
  then obtain c where c: "usempl_streaks example_A = Inr c" ..
  from global_extrema_of_running_columns [OF wf c] c wf show ?thesis
    by blast
qed

text \<open>
  The claim C4 as the specification states it fails on its own example: the values are not
  6, 8, 2 and 3.
\<close>

theorem global_extrema_example_differs:
  "map_sum id global_extrema (usempl_streaks example_A) \<noteq> Inr (6, 8, 2, 3)"
  by (simp add: example_A_def chart_eval segment_eval global_extrema_def)

lemma nat7: "n < 8 \<Longrightarrow> nat (7 - int n) = 7 - n"
  by linarith

lemma nat15: "8 \<le> n \<Longrightarrow> n < 16 \<Longrightarrow> nat (8 + (7 - int n)) = 15 - n"
  by linarith

lemma Viridis8_getitem_ok:
  assumes "n < 16"
  shows "Viridis8_getitem (7 - int n) =
     Inr (Viridis8_at (if n < 8 then 7 - n else 15 - n))"
proof (cases "n < 8")
  case True
  then have "0 \<le> 7 - int n \<and> 7 - int n < 8" by linarith
  then show ?thesis
    unfolding Viridis8_getitem_def using True by (simp only: if_True nat7 simp_thms)
next
  case False
  then have a: "\<not> (0 \<le> 7 - int n \<and> 7 - int n < 8)" by linarith
  have b: "- 8 \<le> 7 - int n \<and> 7 - int n < 0" using False assms by linarith
  have c: "nat (8 + (7 - int n)) = 15 - n" using False assms by (simp add: nat15)
  show ?thesis
    unfolding Viridis8_getitem_def using False by (simp only: a b c if_True if_False simp_thms)
qed

lemma Viridis8_getitem_fail: "16 \<le> n \<Longrightarrow> Viridis8_getitem (7 - int n) = Inl IndexError"
  by (simp add: Viridis8_getitem_def)

lemma highlighted_before_Suc:
  "k < length dfs \<Longrightarrow>
     highlighted_before dfs (Suc k) =
       highlighted_before dfs k + (if highlighted (dfs ! k) then 1 else 0)"
  by (simp add: highlighted_before_def take_Suc_conv_app_nth)

lemma highlighted_before_0 [simp]: "highlighted_before dfs 0 = 0"
  by (simp add: highlighted_before_def)

text \<open>The drawing loop after \<open>k\<close> streaks, for locals that hold a Streak Collection.\<close>

lemma draw_prefix:
  assumes cds: "strk_cds_lst s = dfs"
    and mc: "max_cum_val_lst s = map (\<lambda>df. Max (set (map col_strk_cum df))) dfs"
    and mm: "max_mth_val_lst s = map length dfs"
    and ll: "length (strk_label_lst s) = length dfs"
  shows "k \<le> length dfs \<Longrightarrow>
     for_range (draw_body s) [0..<k] \<lparr>draw_j = - 1, fig_lst = [], label_items_lst = []\<rparr> =
       (if highlighted_before dfs k \<le> 16
        then Inr \<lparr>draw_j = int (highlighted_before dfs k) - 1,
                  fig_lst = map (line_of dfs) [0..<k],
                  label_items_lst =
                    map (\<lambda>i. (strk_label_lst s ! i, [line_of dfs i]))
                      (filter (\<lambda>i. highlighted (dfs ! i)) [0..<k])\<rparr>
        else Inl IndexError)"
proof (induction k)
  case 0
  then show ?case by simp
next
  case (Suc k)
  then have k: "k < length dfs" and IH: "for_range (draw_body s) [0..<k]
       \<lparr>draw_j = - 1, fig_lst = [], label_items_lst = []\<rparr> =
       (if highlighted_before dfs k \<le> 16
        then Inr \<lparr>draw_j = int (highlighted_before dfs k) - 1,
                  fig_lst = map (line_of dfs) [0..<k],
                  label_items_lst =
                    map (\<lambda>i. (strk_label_lst s ! i, [line_of dfs i]))
                      (filter (\<lambda>i. highlighted (dfs ! i)) [0..<k])\<rparr>
        else Inl IndexError)"
    by simp_all
  let ?n = "highlighted_before dfs k"
  note hs = highlighted_before_Suc [OF k]
  have test: "(Max (set (map col_strk_cum (dfs ! k))) > 10000 \<or> length (dfs ! k) > 40)
      = highlighted (dfs ! k)"
    by (simp add: highlighted_def)
  show ?case
  proof (cases "?n \<le> 16")
    case False
    then show ?thesis
      using IH hs by (simp add: for_range_snoc)
  next
    case le: True
    let ?v = "\<lparr>draw_j = int ?n - 1, fig_lst = map (line_of dfs) [0..<k],
                  label_items_lst =
                    map (\<lambda>i. (strk_label_lst s ! i, [line_of dfs i]))
                      (filter (\<lambda>i. highlighted (dfs ! i)) [0..<k])\<rparr>"
    have run: "for_range (draw_body s) ([0..<k] @ [k])
       \<lparr>draw_j = - 1, fig_lst = [], label_items_lst = []\<rparr> = draw_body s k ?v"
      using IH le by (simp add: for_range_snoc)
    show ?thesis
    proof (cases "highlighted (dfs ! k)")
      case hl: True
      have body: "draw_body s k ?v = draw_highlighted s k ?v"
        using k hl test mc mm
        by (auto simp add: draw_body_def bind_err_def py_nth_def simp del: set_map)
      show ?thesis
      proof (cases "?n < 16")
        case True
        have "draw_highlighted s k ?v = Inr \<lparr>draw_j = int ?n,
            fig_lst = map (line_of dfs) [0..<k] @ [line_of dfs k],
            label_items_lst = map (\<lambda>i. (strk_label_lst s ! i, [line_of dfs i]))
                      (filter (\<lambda>i. highlighted (dfs ! i)) [0..<k]) @
              [(strk_label_lst s ! k, [line_of dfs k])]\<rparr>"
          using k hl cds ll Viridis8_getitem_ok [OF True]
          by (simp add: draw_highlighted_def bind_err_def py_nth_def Let_def line_of_def)
        then show ?thesis
          using True hl hs by (simp add: run body)
      next
        case False
        then have "Viridis8_getitem (7 - int ?n) = Inl IndexError"
          by (simp add: Viridis8_getitem_fail)
        then have "draw_highlighted s k ?v = Inl IndexError"
          using k cds by (simp add: draw_highlighted_def bind_err_def py_nth_def Let_def)
        then show ?thesis
          using False hl hs by (simp add: run body)
      qed
    next
      case nh: False
      have body: "draw_body s k ?v = draw_plain s k ?v"
        using k nh test mc mm
        by (auto simp add: draw_body_def bind_err_def py_nth_def simp del: set_map)
      have "draw_plain s k ?v = Inr \<lparr>draw_j = int ?n - 1,
            fig_lst = map (line_of dfs) [0..<k] @ [line_of dfs k],
            label_items_lst = map (\<lambda>i. (strk_label_lst s ! i, [line_of dfs i]))
                      (filter (\<lambda>i. highlighted (dfs ! i)) [0..<k])\<rparr>"
        using k nh cds
        by (simp add: draw_plain_def bind_err_def py_nth_def Let_def line_of_def)
      then show ?thesis
        using le nh hs by (simp add: run body)
    qed
  qed
qed

lemma filter_by_index:
  "map ((!) xs) (filter (\<lambda>i. P (xs ! i)) [0..<length xs]) = filter P xs"
proof (induction xs rule: rev_induct)
  case Nil
  then show ?case by simp
next
  case (snoc x xs)
  have f: "filter (\<lambda>i. P ((xs @ [x]) ! i)) [0..<length xs] =
      filter (\<lambda>i. P (xs ! i)) [0..<length xs]"
    by (rule filter_cong) (simp_all add: nth_append)
  have m: "map ((!) (xs @ [x])) (filter (\<lambda>i. P (xs ! i)) [0..<length xs]) =
      map ((!) xs) (filter (\<lambda>i. P (xs ! i)) [0..<length xs])"
    by (rule map_cong) (simp_all add: nth_append)
  show ?case
    using snoc.IH by (simp add: f m)
qed

lemma range_label_frame_of:
  assumes "run \<noteq> []"
  shows "range_label (frame_of run) = label_of run"
proof -
  from assms have "frame_of run \<noteq> []" by simp
  then have "hd (map member (frame_of run)) = member (hd (frame_of run))"
    by (rule hd_map)
  then have h: "member (hd (frame_of run)) = hd run" by simp
  show ?thesis
    by (simp add: range_label_def label_of_def h last_frame_of [OF assms])
qed

text \<open>What the drawing loop needs of the locals, for a series of the loader.\<close>

lemma segment_draw_facts:
  assumes "wf_series rows" and "segment rows = Inr s"
  shows "strk_cds_lst s = strk_df_lst s"
    and "max_cum_val_lst s = map (\<lambda>df. Max (set (map col_strk_cum df))) (strk_df_lst s)"
    and "max_mth_val_lst s = map length (strk_df_lst s)"
    and "strk_label_lst s = map range_label (strk_df_lst s)"
    and "strk_num s = length (strk_df_lst s)"
    and "min_cum_val_lst s = [] \<longleftrightarrow> strk_df_lst s = []"
    and "min_mth_val_lst s = [] \<longleftrightarrow> strk_df_lst s = []"
    and "strk_df_lst s \<noteq> [] \<longrightarrow> rows \<noteq> []"
proof -
  from assms(1) obtain s' where s': "segment rows = Inr s'"
    "collected (pos_runs rows) s'" "strk_num s' = length (pos_runs rows)"
    "strk_df_lst s' = map frame_of (pos_runs rows)"
    by (rule segment_runs)
  with assms(2) have col: "collected (pos_runs rows) s"
    and n: "strk_num s = length (pos_runs rows)"
    and fr: "strk_df_lst s = map frame_of (pos_runs rows)" by simp_all
  note ex = collected_extrema [OF col]
  show "strk_cds_lst s = strk_df_lst s"
    using col by (simp add: collected_def)
  show "max_cum_val_lst s = map (\<lambda>df. Max (set (map col_strk_cum df))) (strk_df_lst s)"
    using col unfolding fr by (simp add: collected_def frame_of_def del: set_map)
  show "max_mth_val_lst s = map length (strk_df_lst s)"
    by (rule ex(4))
  have "map label_of (pos_runs rows) = map (\<lambda>r. range_label (frame_of r)) (pos_runs rows)"
    by (rule map_cong) (simp_all add: range_label_frame_of pos_runs_ne)
  then show "strk_label_lst s = map range_label (strk_df_lst s)"
    using col unfolding fr by (simp add: collected_def comp_def)
  show "strk_num s = length (strk_df_lst s)"
    by (simp add: n fr)
  show "min_cum_val_lst s = [] \<longleftrightarrow> strk_df_lst s = []"
    by (simp add: ex(1))
  show "min_mth_val_lst s = [] \<longleftrightarrow> strk_df_lst s = []"
    by (simp add: ex(3))
  show "strk_df_lst s \<noteq> [] \<longrightarrow> rows \<noteq> []"
    unfolding fr by (auto simp add: pos_runs_def seg_prefix_Nil)
qed

lemma draw_streaks_result:
  assumes "wf_series rows" and "segment rows = Inr s"
  shows "draw_streaks s =
       (if highlighted_before (strk_df_lst s) (length (strk_df_lst s)) \<le> 16
        then Inr \<lparr>draw_j = int (highlighted_before (strk_df_lst s) (length (strk_df_lst s))) - 1,
                  fig_lst = map (line_of (strk_df_lst s)) [0..<length (strk_df_lst s)],
                  label_items_lst =
                    map (\<lambda>i. (strk_label_lst s ! i, [line_of (strk_df_lst s) i]))
                      (filter (\<lambda>i. highlighted (strk_df_lst s ! i))
                         [0..<length (strk_df_lst s)])\<rparr>
        else Inl IndexError)"
proof -
  note f = segment_draw_facts [OF assms]
  have ll: "length (strk_label_lst s) = length (strk_df_lst s)"
    by (simp add: f(4))
  show ?thesis
    unfolding draw_streaks_def f(5)
    by (rule draw_prefix [OF f(1) f(2) f(3) ll]) simp
qed

lemma py_min_ne: "xs \<noteq> [] \<Longrightarrow> \<exists>m. py_min xs = Inr m"
  by (cases xs) (simp_all add: py_min_def)

lemma py_max_ne: "xs \<noteq> [] \<Longrightarrow> \<exists>m. py_max xs = Inr m"
  by (cases xs) (simp_all add: py_max_def)

lemma usempl_streaks_draw:
  assumes "wf_series rows" and "segment rows = Inr s" and "strk_df_lst s \<noteq> []"
  shows "draw_streaks s = Inl e \<Longrightarrow> usempl_streaks rows = Inl e"
    and "draw_streaks s = Inr v \<Longrightarrow>
      \<exists>c. usempl_streaks rows = Inr c \<and> streaks c = strk_df_lst s \<and>
          labels c = strk_label_lst s \<and> renderers c = fig_lst v \<and>
          legend_items c = label_items_lst v"
proof -
  note f = segment_draw_facts [OF assms(1,2)]
  have ne: "rows \<noteq> []" using f(8) assms(3) by simp
  have l: "min_cum_val_lst s \<noteq> []" "min_mth_val_lst s \<noteq> []"
    "max_cum_val_lst s \<noteq> []" "max_mth_val_lst s \<noteq> []"
    using assms(3) by (simp_all add: f(2,3,6,7))
  from l obtain a b c d where m: "py_min (min_cum_val_lst s) = Inr a"
    "py_max (max_cum_val_lst s) = Inr b" "py_min (min_mth_val_lst s) = Inr c"
    "py_max (max_mth_val_lst s) = Inr d"
    using py_min_ne py_max_ne by metis
  show "draw_streaks s = Inl e \<Longrightarrow> usempl_streaks rows = Inl e"
    using ne assms(2) m by (simp add: usempl_streaks_def bind_err_def Let_def)
  show "draw_streaks s = Inr v \<Longrightarrow>
      \<exists>c. usempl_streaks rows = Inr c \<and> streaks c = strk_df_lst s \<and>
          labels c = strk_label_lst s \<and> renderers c = fig_lst v \<and>
          legend_items c = label_items_lst v"
    using ne assms(2) m by (simp add: usempl_streaks_def bind_err_def Let_def)
qed

lemma highlighted_count:
  "length (filter (\<lambda>i. highlighted (dfs ! i)) [0..<length dfs]) =
     highlighted_before dfs (length dfs)"
proof -
  have "length (filter (\<lambda>i. highlighted (dfs ! i)) [0..<length dfs]) =
      length (map ((!) dfs) (filter (\<lambda>i. highlighted (dfs ! i)) [0..<length dfs]))"
    by simp
  also have "\<dots> = length (filter highlighted dfs)"
    by (simp only: filter_by_index)
  finally show ?thesis by (simp add: highlighted_before_def)
qed

lemma usempl_streaks_example_D: "\<exists>c. usempl_streaks example_D = Inr c"
  by (simp add: example_D_def chart_eval segment_eval)

text \<open>
  C8, as the code has it. When \<open>usempl_streaks\<close> returns a chart for a series of the
  loader, every streak has a label that is its date range, and the legend has one item
  for each highlighted streak (largest running cumulative gain above 10000, or more than
  40 months), in the order of the streaks: the item is keyed by the date range of the
  streak and holds the one line drawn from the frame of that streak. A streak that is not
  highlighted has no item in the legend.
\<close>

theorem legend_of_highlighted_streaks:
  assumes "wf_series usempl_df" and "usempl_streaks usempl_df = Inr c"
  shows "labels c = map range_label (streaks c) \<and>
     map fst (legend_items c) = map range_label (filter highlighted (streaks c)) \<and>
     map (\<lambda>item. map source (snd item)) (legend_items c) =
       map (\<lambda>df. [df]) (filter highlighted (streaks c))"
proof -
  from assms(2) obtain s v where sv: "segment usempl_df = Inr s" "draw_streaks s = Inr v"
    "streaks c = strk_df_lst s" "labels c = strk_label_lst s"
    "legend_items c = label_items_lst v"
    by (rule usempl_streaks_Inr)
  note f = segment_draw_facts [OF assms(1) sv(1)]
  let ?dfs = "strk_df_lst s"
  let ?idx = "filter (\<lambda>i. highlighted (?dfs ! i)) [0..<length ?dfs]"
  from draw_streaks_result [OF assms(1) sv(1)] sv(2)
  have li: "label_items_lst v = map (\<lambda>i. (strk_label_lst s ! i, [line_of ?dfs i])) ?idx"
    by (auto split: if_splits)
  have in_range: "\<forall>i \<in> set ?idx. i < length ?dfs" by simp
  have "map fst (label_items_lst v) = map (\<lambda>i. strk_label_lst s ! i) ?idx"
    by (simp add: li comp_def)
  also have "\<dots> = map (\<lambda>i. range_label (?dfs ! i)) ?idx"
    by (rule map_cong) (simp_all add: f(4))
  also have "\<dots> = map range_label (map ((!) ?dfs) ?idx)"
    by (simp add: comp_def)
  also have "\<dots> = map range_label (filter highlighted ?dfs)"
    by (simp only: filter_by_index)
  finally have a: "map fst (label_items_lst v) = map range_label (filter highlighted ?dfs)" .
  have "map (\<lambda>item. map source (snd item)) (label_items_lst v) =
      map (\<lambda>i. [source (line_of ?dfs i)]) ?idx"
    by (simp add: li comp_def)
  also have "\<dots> = map (\<lambda>i. [?dfs ! i]) ?idx"
    by (rule map_cong) (simp_all add: line_of_def)
  also have "\<dots> = map (\<lambda>df. [df]) (map ((!) ?dfs) ?idx)"
    by (simp add: comp_def)
  also have "\<dots> = map (\<lambda>df. [df]) (filter highlighted ?dfs)"
    by (simp only: filter_by_index)
  finally have b: "map (\<lambda>item. map source (snd item)) (label_items_lst v) =
      map (\<lambda>df. [df]) (filter highlighted ?dfs)" .
  from a b f(4) show ?thesis
    by (simp add: sv(3,4,5))
qed

theorem legend_of_highlighted_streaks_witness:
  "wf_series example_D \<and>
   (\<exists>c. usempl_streaks example_D = Inr c \<and>
      labels c = map range_label (streaks c) \<and>
      map fst (legend_items c) = map range_label (filter highlighted (streaks c)) \<and>
      map (\<lambda>item. map source (snd item)) (legend_items c) =
        map (\<lambda>df. [df]) (filter highlighted (streaks c)))"
proof -
  have wf: "wf_series example_D"
    unfolding example_D_def by (rule wf_series_with_gain)
  from usempl_streaks_example_D obtain c where c: "usempl_streaks example_D = Inr c" ..
  from legend_of_highlighted_streaks [OF wf c] c wf show ?thesis
    by blast
qed

text \<open>
  The claim C8 as the specification states it fails: the series with the gains 1, 1, 1 has
  one streak, from 2020-02 to 2020-04, and the legend of its chart has no item.
\<close>

theorem streak_without_legend_item:
  "map_sum id (\<lambda>c. (labels c, legend_items c)) (usempl_streaks example_C) =
     Inr ([''2020-02 to 2020-04''], [])"
  by (simp add: example_C_def chart_eval segment_eval)

lemma segment_example_many:
  "\<exists>s. segment example_many = Inr s \<and>
     16 < highlighted_before (strk_df_lst s) (length (strk_df_lst s))"
  by (simp add: example_many_def segment_eval highlighted_before_def highlighted_def)

lemma segment_example_D:
  "\<exists>s. segment example_D = Inr s \<and> strk_df_lst s \<noteq> [] \<and>
     highlighted_before (strk_df_lst s) (length (strk_df_lst s)) \<le> 16 \<and>
     length (strk_df_lst s) = 2 \<and>
     highlighted (strk_df_lst s ! 0) \<and> \<not> highlighted (strk_df_lst s ! 1) \<and>
     highlighted_before (strk_df_lst s) 0 = 0 \<and>
     highlighted_before (strk_df_lst s) 2 = 1"
  by (simp add: example_D_def segment_eval highlighted_before_def highlighted_def)

text \<open>
  C10. Let a series of the loader be segmented into the frames \<open>strk_df_lst\<close>, and call
  a streak highlighted when its largest running cumulative gain is above 10000 or it has
  more than 40 months.

  With more than 16 highlighted streaks \<open>usempl_streaks\<close> raises \<open>IndexError\<close>. With at
  least one streak and at most 16 highlighted ones it returns a chart with one line per
  streak, drawn from the frame of the streak. The line of a highlighted streak has width
  4 and the colour \<open>Viridis8[7 - n]\<close>, where \<open>n\<close> is the number of highlighted streaks
  before it: position \<open>7 - n\<close> of the palette for \<open>n < 8\<close>, and for \<open>n \<ge> 8\<close> a negative
  index that reads position \<open>15 - n\<close>, a colour used before; the streak has an item in
  the legend. The line of any other streak is orange with width 2, and no line of the
  legend is orange. The legend has as many items as there are highlighted streaks.
\<close>

theorem highlighted_streaks_palette:
  assumes "wf_series usempl_df" and "segment usempl_df = Inr s"
  shows
    "(16 < highlighted_before (strk_df_lst s) (length (strk_df_lst s)) \<longrightarrow>
        usempl_streaks usempl_df = Inl IndexError) \<and>
     (strk_df_lst s \<noteq> [] \<and>
      highlighted_before (strk_df_lst s) (length (strk_df_lst s)) \<le> 16 \<longrightarrow>
        (\<exists>c. usempl_streaks usempl_df = Inr c \<and> streaks c = strk_df_lst s \<and>
           length (renderers c) = length (streaks c) \<and>
           (\<forall>k < length (streaks c).
              source (renderers c ! k) = streaks c ! k \<and>
              (highlighted (streaks c ! k) \<longrightarrow>
                 line_width (renderers c ! k) = 4 \<and>
                 Viridis8_getitem (7 - int (highlighted_before (streaks c) k)) =
                   Inr (line_color (renderers c ! k)) \<and>
                 line_color (renderers c ! k) =
                   Viridis8_at (if highlighted_before (streaks c) k < 8
                                then 7 - highlighted_before (streaks c) k
                                else 15 - highlighted_before (streaks c) k) \<and>
                 (7 - int (highlighted_before (streaks c) k) < 0 \<longleftrightarrow>
                    8 \<le> highlighted_before (streaks c) k) \<and>
                 (labels c ! k, [renderers c ! k]) \<in> set (legend_items c)) \<and>
              (\<not> highlighted (streaks c ! k) \<longrightarrow>
                 line_color (renderers c ! k) = orange \<and>
                 line_width (renderers c ! k) = 2)) \<and>
           length (legend_items c) =
             highlighted_before (streaks c) (length (streaks c)) \<and>
           (\<forall>item \<in> set (legend_items c). \<forall>g \<in> set (snd item).
              line_color g \<noteq> orange)))"
proof (intro conjI impI)
  let ?dfs = "strk_df_lst s"
  let ?n = "length ?dfs"
  let ?idx = "filter (\<lambda>i. highlighted (?dfs ! i)) [0..<?n]"
  note dr = draw_streaks_result [OF assms]
  {
    assume many: "16 < highlighted_before ?dfs ?n"
    then have "?dfs \<noteq> []" by (auto simp: highlighted_before_def)
    moreover from many dr have "draw_streaks s = Inl IndexError" by simp
    ultimately show "usempl_streaks usempl_df = Inl IndexError"
      using usempl_streaks_draw(1) [OF assms] by simp
  }
  {
    assume a: "?dfs \<noteq> [] \<and> highlighted_before ?dfs ?n \<le> 16"
    let ?v = "\<lparr>draw_j = int (highlighted_before ?dfs ?n) - 1,
               fig_lst = map (line_of ?dfs) [0..<?n],
               label_items_lst = map (\<lambda>i. (strk_label_lst s ! i, [line_of ?dfs i])) ?idx\<rparr>"
    from a dr have "draw_streaks s = Inr ?v" by simp
    with usempl_streaks_draw(2) [OF assms, of ?v] a obtain c where
      c: "usempl_streaks usempl_df = Inr c" "streaks c = ?dfs"
      "labels c = strk_label_lst s" "renderers c = map (line_of ?dfs) [0..<?n]"
      "legend_items c = map (\<lambda>i. (strk_label_lst s ! i, [line_of ?dfs i])) ?idx"
      by auto
    have len: "length (renderers c) = length (streaks c)"
      by (simp add: c(2,4))
    have lines: "source (renderers c ! k) = streaks c ! k \<and>
              (highlighted (streaks c ! k) \<longrightarrow>
                 line_width (renderers c ! k) = 4 \<and>
                 Viridis8_getitem (7 - int (highlighted_before (streaks c) k)) =
                   Inr (line_color (renderers c ! k)) \<and>
                 line_color (renderers c ! k) =
                   Viridis8_at (if highlighted_before (streaks c) k < 8
                                then 7 - highlighted_before (streaks c) k
                                else 15 - highlighted_before (streaks c) k) \<and>
                 (7 - int (highlighted_before (streaks c) k) < 0 \<longleftrightarrow>
                    8 \<le> highlighted_before (streaks c) k) \<and>
                 (labels c ! k, [renderers c ! k]) \<in> set (legend_items c)) \<and>
              (\<not> highlighted (streaks c ! k) \<longrightarrow>
                 line_color (renderers c ! k) = orange \<and>
                 line_width (renderers c ! k) = 2)"
      if k: "k < length (streaks c)" for k
    proof -
      from k have kn: "k < ?n" by (simp add: c(2))
      have r: "renderers c ! k = line_of ?dfs k"
        using kn by (simp add: c(4))
      have src: "source (line_of ?dfs k) = ?dfs ! k"
        by (simp add: line_of_def)
      have plain: "line_color (line_of ?dfs k) = orange \<and> line_width (line_of ?dfs k) = 2"
        if "\<not> highlighted (?dfs ! k)"
        using that by (simp add: line_of_def)
      have hl: "line_width (line_of ?dfs k) = 4 \<and>
          Viridis8_getitem (7 - int (highlighted_before ?dfs k)) =
            Inr (line_color (line_of ?dfs k)) \<and>
          line_color (line_of ?dfs k) =
            Viridis8_at (if highlighted_before ?dfs k < 8 then 7 - highlighted_before ?dfs k
                         else 15 - highlighted_before ?dfs k) \<and>
          (7 - int (highlighted_before ?dfs k) < 0 \<longleftrightarrow> 8 \<le> highlighted_before ?dfs k) \<and>
          (strk_label_lst s ! k, [line_of ?dfs k]) \<in>
            set (map (\<lambda>i. (strk_label_lst s ! i, [line_of ?dfs i])) ?idx)"
        if h: "highlighted (?dfs ! k)"
      proof -
        have "highlighted_before ?dfs (Suc k) \<le> highlighted_before ?dfs ?n"
        proof -
          have "take (Suc k) ?dfs = take (Suc k) (take ?n ?dfs)" by simp
          have "filter highlighted ?dfs =
              filter highlighted (take (Suc k) ?dfs) @ filter highlighted (drop (Suc k) ?dfs)"
            by (metis append_take_drop_id filter_append)
          then have "length (filter highlighted (take (Suc k) ?dfs)) \<le>
              length (filter highlighted ?dfs)"
            by (metis le_add1 length_append)
          then show ?thesis by (simp add: highlighted_before_def)
        qed
        then have "highlighted_before ?dfs k < 16"
          using a h by (simp add: highlighted_before_Suc [OF kn])
        then have g: "Viridis8_getitem (7 - int (highlighted_before ?dfs k)) =
            Inr (Viridis8_at (if highlighted_before ?dfs k < 8
                              then 7 - highlighted_before ?dfs k
                              else 15 - highlighted_before ?dfs k))"
          by (rule Viridis8_getitem_ok)
        have col: "line_color (line_of ?dfs k) =
            Viridis8_at (if highlighted_before ?dfs k < 8 then 7 - highlighted_before ?dfs k
                         else 15 - highlighted_before ?dfs k)"
          "line_width (line_of ?dfs k) = 4"
          using h by (simp_all add: line_of_def)
        have neg: "7 - int (highlighted_before ?dfs k) < 0 \<longleftrightarrow> 8 \<le> highlighted_before ?dfs k"
          by linarith
        have "k \<in> set ?idx" using kn h by simp
        then have mem: "(strk_label_lst s ! k, [line_of ?dfs k]) \<in>
            set (map (\<lambda>i. (strk_label_lst s ! i, [line_of ?dfs i])) ?idx)"
          by (rule imageI [of k "set ?idx" "\<lambda>i. (strk_label_lst s ! i, [line_of ?dfs i])",
              folded set_map])
        from col g neg mem show ?thesis by (simp only: simp_thms)
      qed
      from src plain hl show ?thesis
        unfolding r c(2) c(3) c(5) by blast
    qed
    have cnt: "length (legend_items c) = highlighted_before (streaks c) (length (streaks c))"
      by (simp add: c(2,5) highlighted_count)
    have noor: "\<forall>item \<in> set (legend_items c). \<forall>g \<in> set (snd item). line_color g \<noteq> orange"
      unfolding c(5) by (auto simp add: line_of_def)
    from c(1,2) len lines cnt noor
    show "\<exists>c. usempl_streaks usempl_df = Inr c \<and> streaks c = strk_df_lst s \<and>
           length (renderers c) = length (streaks c) \<and>
           (\<forall>k < length (streaks c).
              source (renderers c ! k) = streaks c ! k \<and>
              (highlighted (streaks c ! k) \<longrightarrow>
                 line_width (renderers c ! k) = 4 \<and>
                 Viridis8_getitem (7 - int (highlighted_before (streaks c) k)) =
                   Inr (line_color (renderers c ! k)) \<and>
                 line_color (renderers c ! k) =
                   Viridis8_at (if highlighted_before (streaks c) k < 8
                                then 7 - highlighted_before (streaks c) k
                                else 15 - highlighted_before (streaks c) k) \<and>
                 (7 - int (highlighted_before (streaks c) k) < 0 \<longleftrightarrow>
                    8 \<le> highlighted_before (streaks c) k) \<and>
                 (labels c ! k, [renderers c ! k]) \<in> set (legend_items c)) \<and>
              (\<not> highlighted (streaks c ! k) \<longrightarrow>
                 line_color (renderers c ! k) = orange \<and>
                 line_width (renderers c ! k) = 2)) \<and>
           length (legend_items c) =
             highlighted_before (streaks c) (length (streaks c)) \<and>
           (\<forall>item \<in> set (legend_items c). \<forall>g \<in> set (snd item).
              line_color g \<noteq> orange)"
      by (intro exI [of _ c] conjI allI impI) blast+
  }
qed

theorem highlighted_streaks_palette_witness:
  "wf_series example_many \<and>
   (\<exists>s. segment example_many = Inr s \<and>
      16 < highlighted_before (strk_df_lst s) (length (strk_df_lst s)) \<and>
      usempl_streaks example_many = Inl IndexError) \<and>
   wf_series example_D \<and>
   (\<exists>s. segment example_D = Inr s \<and> strk_df_lst s \<noteq> [] \<and>
      highlighted_before (strk_df_lst s) (length (strk_df_lst s)) \<le> 16 \<and>
      highlighted (strk_df_lst s ! 0) \<and> \<not> highlighted (strk_df_lst s ! 1) \<and>
      (\<exists>c. usempl_streaks example_D = Inr c \<and> streaks c = strk_df_lst s \<and>
         length (renderers c) = 2 \<and>
         line_color (renderers c ! 0) = Viridis8_at 7 \<and>
         line_color (renderers c ! 1) = orange \<and>
         length (legend_items c) = 1))"
proof -
  have wf1: "wf_series example_many"
    unfolding example_many_def by (rule wf_series_with_gain)
  have wf2: "wf_series example_D"
    unfolding example_D_def by (rule wf_series_with_gain)
  from segment_example_many obtain s1 where s1: "segment example_many = Inr s1"
    "16 < highlighted_before (strk_df_lst s1) (length (strk_df_lst s1))"
    by blast
  have e1: "usempl_streaks example_many = Inl IndexError"
    by (rule highlighted_streaks_palette [OF wf1 s1(1), THEN conjunct1, THEN mp, OF s1(2)])
  from segment_example_D obtain s2 where s2: "segment example_D = Inr s2"
    "strk_df_lst s2 \<noteq> []"
    "highlighted_before (strk_df_lst s2) (length (strk_df_lst s2)) \<le> 16"
    "length (strk_df_lst s2) = 2"
    "highlighted (strk_df_lst s2 ! 0)" "\<not> highlighted (strk_df_lst s2 ! 1)"
    "highlighted_before (strk_df_lst s2) 0 = 0"
    "highlighted_before (strk_df_lst s2) 2 = 1"
    by blast
  note ex = highlighted_streaks_palette [OF wf2 s2(1), THEN conjunct2, THEN mp,
      OF conjI [OF s2(2) s2(3)]]
  from ex obtain c where c: "usempl_streaks example_D = Inr c" "streaks c = strk_df_lst s2"
    "length (renderers c) = length (streaks c)"
    and all: "\<forall>k < length (streaks c).
              source (renderers c ! k) = streaks c ! k \<and>
              (highlighted (streaks c ! k) \<longrightarrow>
                 line_width (renderers c ! k) = 4 \<and>
                 Viridis8_getitem (7 - int (highlighted_before (streaks c) k)) =
                   Inr (line_color (renderers c ! k)) \<and>
                 line_color (renderers c ! k) =
                   Viridis8_at (if highlighted_before (streaks c) k < 8
                                then 7 - highlighted_before (streaks c) k
                                else 15 - highlighted_before (streaks c) k) \<and>
                 (7 - int (highlighted_before (streaks c) k) < 0 \<longleftrightarrow>
                    8 \<le> highlighted_before (streaks c) k) \<and>
                 (labels c ! k, [renderers c ! k]) \<in> set (legend_items c)) \<and>
              (\<not> highlighted (streaks c ! k) \<longrightarrow>
                 line_color (renderers c ! k) = orange \<and>
                 line_width (renderers c ! k) = 2)"
    and cnt: "length (legend_items c) = highlighted_before (streaks c) (length (streaks c))"
    by (elim exE conjE)
  have lc: "length (streaks c) = 2" by (simp add: c(2) s2(4))
  from all lc have a0: "highlighted (streaks c ! 0) \<longrightarrow>
                 line_color (renderers c ! 0) =
                   Viridis8_at (if highlighted_before (streaks c) 0 < 8
                                then 7 - highlighted_before (streaks c) 0
                                else 15 - highlighted_before (streaks c) 0)"
    by (elim allE [of _ 0]) simp
  from all lc have a1: "\<not> highlighted (streaks c ! 1) \<longrightarrow>
                 line_color (renderers c ! 1) = orange"
    by (elim allE [of _ 1]) simp
  have k0: "line_color (renderers c ! 0) = Viridis8_at 7"
    using a0 s2(5,7) by (simp add: c(2))
  have k1: "line_color (renderers c ! 1) = orange"
    using a1 s2(6) by (simp add: c(2))
  have l: "length (renderers c) = 2" "length (legend_items c) = 1"
    using c(3) cnt s2(4,8) by (simp_all add: c(2))
  have "\<exists>c. usempl_streaks example_D = Inr c \<and> streaks c = strk_df_lst s2 \<and>
         length (renderers c) = 2 \<and>
         line_color (renderers c ! 0) = Viridis8_at 7 \<and>
         line_color (renderers c ! 1) = orange \<and>
         length (legend_items c) = 1"
    using c(1,2) k0 k1 l by (intro exI [of _ c] conjI)
  with s2 have d: "\<exists>s. segment example_D = Inr s \<and> strk_df_lst s \<noteq> [] \<and>
      highlighted_before (strk_df_lst s) (length (strk_df_lst s)) \<le> 16 \<and>
      highlighted (strk_df_lst s ! 0) \<and> \<not> highlighted (strk_df_lst s ! 1) \<and>
      (\<exists>c. usempl_streaks example_D = Inr c \<and> streaks c = strk_df_lst s \<and>
         length (renderers c) = 2 \<and>
         line_color (renderers c ! 0) = Viridis8_at 7 \<and>
         line_color (renderers c ! 1) = orange \<and>
         length (legend_items c) = 1)"
    by (intro exI [of _ s2] conjI)
  have m: "\<exists>s. segment example_many = Inr s \<and>
      16 < highlighted_before (strk_df_lst s) (length (strk_df_lst s)) \<and>
      usempl_streaks example_many = Inl IndexError"
    using s1 e1 by (intro exI [of _ s1] conjI)
  from wf1 m wf2 d show ?thesis by (intro conjI)
qed

section \<open>The errors of the segmentation\<close>

lemma gain_col_append: "gain_col (xs @ ys) = gain_col xs @ gain_col ys"
  by (induction xs) (simp_all add: gain_col_def map_filter_simps split: option.splits)

lemma gain_col_set_totals [simp]: "gain_col (set_totals m c df) = gain_col df"
  by (induction df) (simp_all add: gain_col_def set_totals_def map_filter_simps split: option.splits)

lemma add_member_open:
  assumes "empl_mth_gain r = Some g"
  shows "strk_mths (add_member r g (open_streak i d s)) > 0"
    and "strk_df (add_member r g (open_streak i d s)) \<noteq> []"
    and "gain_col (strk_df (add_member r g (open_streak i d s))) \<noteq> []"
  using assms
  by (simp_all add: add_member_def open_streak_def Let_def gain_col_append)
     (simp_all add: gain_col_def map_filter_simps)

lemma close_no_dead_error:
  assumes "strk_mths s > 0" and "strk_df s \<noteq> []" and "gain_col (strk_df s) \<noteq> []"
  shows "\<exists>s'. close_at_end d s = Inr s'"
    and "\<exists>s'. close_on_drop d s = Inr s' \<and> strk_mths s' = 0"
proof -
  let ?df = "set_totals (strk_mths s) (strk_cum s) (strk_df s)"
  have ne: "?df \<noteq> []" "gain_col ?df \<noteq> []" using assms(2,3) by simp_all
  show "\<exists>s'. close_at_end d s = Inr s'"
    using assms(1) by (simp add: close_at_end_def Let_def append_extrema_ok [OF ne])
  show "\<exists>s'. close_on_drop d s = Inr s' \<and> strk_mths s' = 0"
    using assms(1) by (simp add: close_on_drop_def Let_def append_extrema_ok [OF ne])
qed

lemma loop_body_errors:
  assumes ok: "open_frame_ok s"
    and prev: "0 < i \<and> pos_gain (rows ! (i - 1)) \<longrightarrow> strk_mths s > 0"
  shows "(\<forall>e. loop_body rows i s = Inl e \<longrightarrow> e = KeyError \<and> i = 0) \<and>
         (\<forall>s'. loop_body rows i s = Inr s' \<longrightarrow>
            open_frame_ok s' \<and> (pos_gain (rows ! i) \<longrightarrow> strk_mths s' > 0))"
proof (cases "empl_mth_gain (rows ! i)")
  case None
  with ok show ?thesis by (simp add: loop_body_def pos_gain_def)
next
  case (Some g)
  show ?thesis
  proof (cases "g > 0")
    case True
    let ?s1 = "add_member (rows ! i) g (open_streak i (Date (rows ! i)) s)"
    note am = add_member_open [OF Some, of i "Date (rows ! i)" s]
    have unf: "loop_body rows i s =
        (if i = length rows - 1 then close_at_end (Date (rows ! i)) ?s1 else Inr ?s1)"
      unfolding loop_body_def Let_def using Some True by simp
    show ?thesis
    proof (cases "i = length rows - 1")
      case last: True
      from close_no_dead_error(1) [OF am, of "Date (rows ! i)"] obtain s1 where
        s1: "close_at_end (Date (rows ! i)) ?s1 = Inr s1" ..
      have "strk_mths s1 = strk_mths ?s1 \<and> strk_df s1 \<noteq> [] \<and> gain_col (strk_df s1) \<noteq> []"
      proof -
        let ?df = "set_totals (strk_mths ?s1) (strk_cum ?s1) (strk_df ?s1)"
        have ne: "?df \<noteq> []" "gain_col ?df \<noteq> []" using am(2,3) by simp_all
        show ?thesis
          using s1 am(1) ne
          by (auto simp add: close_at_end_def Let_def append_extrema_ok [OF ne])
      qed
      then show ?thesis
        using s1 am(1) last unf by (simp add: open_frame_ok_def)
    next
      case False
      then show ?thesis
        using am unf by (simp add: open_frame_ok_def)
    qed
  next
    case False
    then have np: "\<not> pos_gain (rows ! i)" using Some by (simp add: pos_gain_def)
    show ?thesis
    proof (cases "i = 0")
      case True
      then show ?thesis using Some False by (simp add: loop_body_def)
    next
      case i0: False
      show ?thesis
      proof (cases "pos_gain (rows ! (i - 1))")
        case True
        with prev i0 ok have o: "strk_mths s > 0" "strk_df s \<noteq> []" "gain_col (strk_df s) \<noteq> []"
          by (simp_all add: open_frame_ok_def)
        from close_no_dead_error(2) [OF o, of "Date (rows ! (i - 1))"] obtain s1 where
          s1: "close_on_drop (Date (rows ! (i - 1))) s = Inr s1" "strk_mths s1 = 0" by blast
        have "loop_body rows i s = Inr s1"
          using Some False i0 True s1(1)
          by (auto simp add: loop_body_def pos_gain_def split: option.splits)
        then show ?thesis using s1(2) np by (simp add: open_frame_ok_def)
      next
        case False
        have "loop_body rows i s = Inr s"
          using Some \<open>\<not> g > 0\<close> i0 False
          by (auto simp add: loop_body_def pos_gain_def split: option.splits)
        then show ?thesis using ok np by simp
      qed
    qed
  qed
qed

lemma for_range_errors:
  "(\<forall>e. for_range (loop_body rows) [0..<k] (init_locals s0) = Inl e \<longrightarrow> e = KeyError) \<and>
   (\<forall>s. for_range (loop_body rows) [0..<k] (init_locals s0) = Inr s \<longrightarrow>
      open_frame_ok s \<and> (0 < k \<and> pos_gain (rows ! (k - 1)) \<longrightarrow> strk_mths s > 0))"
proof (induction k)
  case 0
  then show ?case by (simp add: open_frame_ok_def init_locals_def)
next
  case (Suc k)
  show ?case
  proof (cases "for_range (loop_body rows) [0..<k] (init_locals s0)")
    case (Inl e)
    with Suc show ?thesis by (simp add: for_range_snoc)
  next
    case (Inr s)
    with Suc have "open_frame_ok s" "0 < k \<and> pos_gain (rows ! (k - 1)) \<longrightarrow> strk_mths s > 0"
      by simp_all
    from loop_body_errors [OF this, of ] Inr show ?thesis
      by (simp add: for_range_snoc)
  qed
qed

text \<open>
  On any series, of the loader's shape or not, the only error of the segmentation is the
  \<open>KeyError\<close> of a first row whose gain is a number and not positive: the division by
  \<open>strk_mths\<close> and the extrema of a frame are never reached with zero months or no rows.
\<close>

lemma segment_from_only_KeyError: "segment_from s0 rows = Inl e \<Longrightarrow> e = KeyError"
  using for_range_errors [of rows "length rows" s0] by (simp add: segment_from_def)

end
